theory Spec2Isabelle
  imports Complex_Main "HOL-Library.Option_ord"
begin

section \<open>The interactive driver \<^verbatim>\<open>play_vs_ai.py\<close>\<close>

text \<open>
  The two copies of the driver (\<^verbatim>\<open>src/play_vs_ai.py\<close> and
  \<^verbatim>\<open>src/fluxgame/pytorch/play_vs_ai.py\<close>) differ only in their imports and in the
  checkpoint path; the functions modelled here are the same text in both.

  Python exceptions are values: a function that may raise returns \<open>py_error + 'a\<close>,
  with \<open>Inl\<close> the exception. The last two are the errors the specification names
  for the search engine; the driver catches neither.
\<close>

datatype py_error =
    KeyError string
  | AttributeError string
  | ValueError
  | IndexError
  | EOFError
  | InvalidMoveError
  | EvaluatorError

subsection \<open>\<^verbatim>\<open>class dotdict(dict)\<close>\<close>

text \<open>
  A dictionary with string keys is a map. The class overrides three hooks:
  \<^verbatim>\<open>__getattr__(self, name): return self[name]\<close>,
  \<^verbatim>\<open>__setattr__(self, name, value): self[name] = value\<close> and
  \<^verbatim>\<open>__delattr__(self, name): del self[name]\<close>.
  Subscription of a missing key raises \<^verbatim>\<open>KeyError\<close>.
\<close>

type_synonym 'v pydict = "string \<rightharpoonup> 'v"

definition getitem :: "'v pydict \<Rightarrow> string \<Rightarrow> py_error + 'v" where
  "getitem d k = (case d k of None \<Rightarrow> Inl (KeyError k) | Some v \<Rightarrow> Inr v)"

definition dotdict_getattr :: "'v pydict \<Rightarrow> string \<Rightarrow> py_error + 'v" where
  "dotdict_getattr self name = getitem self name"

definition dotdict_setattr :: "'v pydict \<Rightarrow> string \<Rightarrow> 'v \<Rightarrow> 'v pydict" where
  "dotdict_setattr self name val = self(name \<mapsto> val)"

definition dotdict_delattr :: "'v pydict \<Rightarrow> string \<Rightarrow> py_error + 'v pydict" where
  "dotdict_delattr self name =
     (case self name of None \<Rightarrow> Inl (KeyError name) | Some _ \<Rightarrow> Inr (self(name := None)))"

text \<open>
  The expression \<^verbatim>\<open>d.k\<close> is not a call of \<^verbatim>\<open>__getattr__\<close>: Python first runs the
  default lookup (\<^verbatim>\<open>object.__getattribute__\<close>: the attributes of the classes
  \<^verbatim>\<open>dotdict\<close>, \<^verbatim>\<open>dict\<close> and \<^verbatim>\<open>object\<close>, and the instance's own
  \<^verbatim>\<open>__dict__\<close>), and calls \<^verbatim>\<open>__getattr__\<close> only when that lookup raises
  \<^verbatim>\<open>AttributeError\<close>. What the default lookup finds is the parameter \<open>cls\<close>.
  The statement \<^verbatim>\<open>d.k = v\<close> always calls \<^verbatim>\<open>__setattr__\<close>.
\<close>

definition attr_get :: "(string \<rightharpoonup> 'v) \<Rightarrow> 'v pydict \<Rightarrow> string \<Rightarrow> py_error + 'v" where
  "attr_get cls d name =
     (case cls name of Some a \<Rightarrow> Inr a | None \<Rightarrow> dotdict_getattr d name)"

definition attr_set :: "'v pydict \<Rightarrow> string \<Rightarrow> 'v \<Rightarrow> 'v pydict" where
  "attr_set d name val = dotdict_setattr d name val"

text \<open>
  \<^verbatim>\<open>hasattr(d, name)\<close> evaluates the attribute and answers \<^verbatim>\<open>False\<close> on
  \<^verbatim>\<open>AttributeError\<close> only; any other exception propagates.
\<close>

definition hasattr :: "(string \<rightharpoonup> 'v) \<Rightarrow> 'v pydict \<Rightarrow> string \<Rightarrow> py_error + bool" where
  "hasattr cls d name =
     (case attr_get cls d name of
        Inr _ \<Rightarrow> Inr True
      | Inl (AttributeError _) \<Rightarrow> Inr False
      | Inl e \<Rightarrow> Inl e)"

text \<open>
  Python values as far as the driver's \<^verbatim>\<open>args\<close> needs them, and the public methods
  every \<^verbatim>\<open>dict\<close> has (the names with double underscores, which vary with the
  Python version, are left to the parameter \<open>cls\<close>).
\<close>

datatype pyobj = PyInt int | PyFloat rat | PyMethod string

definition dict_methods :: "string list" where
  "dict_methods = [''clear'', ''copy'', ''fromkeys'', ''get'', ''items'', ''keys'',
     ''pop'', ''popitem'', ''setdefault'', ''update'', ''values'']"

definition dict_class :: "string \<rightharpoonup> pyobj" where
  "dict_class name = (if name \<in> set dict_methods then Some (PyMethod name) else None)"

definition args :: "pyobj pydict" where
  "args = [''numMCTSSims'' \<mapsto> PyInt 25, ''cpuct'' \<mapsto> PyFloat 1]"

subsection \<open>\<^verbatim>\<open>display\<close>\<close>

text \<open>
  A board is a two-dimensional array of integer cell codes. Text written to the
  terminal is a list of byte strings, one per call of \<^verbatim>\<open>print\<close> or
  \<^verbatim>\<open>input\<close>; the four glyphs outside ASCII are their UTF-8 bytes
  (U+25CB, U+25CF, U+25C7, U+25C6).
\<close>

type_synonym board = "int list list"

definition white_ion :: string where
  "white_ion = [CHR 0xE2, CHR 0x97, CHR 0x8B]"

definition black_ion :: string where
  "black_ion = [CHR 0xE2, CHR 0x97, CHR 0x8F]"

definition white_node :: string where
  "white_node = [CHR 0xE2, CHR 0x97, CHR 0x87]"

definition black_node :: string where
  "black_node = [CHR 0xE2, CHR 0x97, CHR 0x86]"

definition symbol :: "int \<Rightarrow> string" where
  "symbol x =
     (if x = 0 then ''.''
      else if x = 1 then white_ion
      else if x = - 1 then black_ion
      else if x \<in> set [2, 3, 4, 5] then white_node
      else if x \<in> set [- 2, - 3, - 4, - 5] then black_node
      else ''?'')"

fun join :: "string \<Rightarrow> string list \<Rightarrow> string" where
  "join sep [] = []"
| "join sep [s] = s"
| "join sep (s # t # ss) = s @ sep @ join sep (t # ss)"

definition display :: "board \<Rightarrow> string list" where
  "display b = map (\<lambda>row. join '' '' (map symbol row)) b @ ['''']"

subsection \<open>\<^verbatim>\<open>ai_player\<close>\<close>

text \<open>
  \<^verbatim>\<open>np.argmax\<close> scans the sequence once and keeps the first position of the
  largest entry (a later entry replaces the best one only when strictly larger); on
  an empty sequence it raises \<^verbatim>\<open>ValueError\<close>.
\<close>

fun argmax_scan :: "'a::linorder list \<Rightarrow> nat \<Rightarrow> 'a \<Rightarrow> nat \<Rightarrow> nat" where
  "argmax_scan [] i best bi = bi"
| "argmax_scan (x # xs) i best bi =
     (if best < x then argmax_scan xs (Suc i) x i else argmax_scan xs (Suc i) best bi)"

fun argmax :: "'a::linorder list \<Rightarrow> py_error + nat" where
  "argmax [] = Inl ValueError"
| "argmax (x # xs) = Inr (argmax_scan xs 1 x 0)"

text \<open>
  A call of a function that may also fail to return has one of three outcomes.
\<close>

datatype 'a outcome = Returns 'a | Raises py_error | Hangs

fun returned :: "'a outcome \<Rightarrow> 'a option" where
  "returned (Returns x) = Some x"
| "returned (Raises e) = None"
| "returned Hangs = None"

text \<open>
  The search engine and the game are objects of classes that are not among the
  sources (\<^verbatim>\<open>MCTS\<close>, \<^verbatim>\<open>FluxGame\<close>); the driver only calls their methods. They
  are the fields of a record the driver's functions take as a parameter. The engine
  is one object shared by all calls, so its method takes the object's state \<open>'m\<close>
  and returns the new one. A result of \<^verbatim>\<open>getGameEnded\<close> is a number (the driver
  compares it with \<^verbatim>\<open>0\<close>, \<^verbatim>\<open>1\<close> and \<^verbatim>\<open>-1\<close>), and so is a probability.
\<close>

record 'm world =
  getInitBoard :: board
  getValidMoves :: "board \<Rightarrow> int \<Rightarrow> int list"
  getNextState :: "board \<Rightarrow> int \<Rightarrow> int \<Rightarrow> board \<times> int"
  getGameEnded :: "board \<Rightarrow> int \<Rightarrow> real"
  getActionProb :: "'m \<Rightarrow> board \<Rightarrow> real \<Rightarrow> (real list \<times> 'm) outcome"

text \<open>
  Calls are recorded as events, each emitted by the callee with the arguments it
  received.
\<close>

datatype event =
    HumanPlayer board
  | AiPlayer board
  | GetActionProb board real

text \<open>
  \<^verbatim>\<open>def ai_player(board): pi = mcts.getActionProb(board, temp=0); return np.argmax(pi)\<close>
\<close>

definition ai_player :: "'m world \<Rightarrow> 'm \<Rightarrow> board \<Rightarrow> event list \<times> (nat \<times> 'm) outcome" where
  "ai_player w m b =
     ([AiPlayer b, GetActionProb b 0],
      case getActionProb w m b 0 of
        Returns (probs, m') \<Rightarrow>
          (case argmax probs of Inl e \<Rightarrow> Raises e | Inr a \<Rightarrow> Returns (a, m'))
      | Raises e \<Rightarrow> Raises e
      | Hangs \<Rightarrow> Hangs)"

subsection \<open>\<^verbatim>\<open>human_player\<close>\<close>

text \<open>Decimal \<^verbatim>\<open>repr\<close> of a natural number and of a list of them.\<close>

definition digit_char :: "nat \<Rightarrow> char" where
  "digit_char d = char_of (48 + d)"

function show_nat :: "nat \<Rightarrow> string" where
  "show_nat n = (if n < 10 then [digit_char n] else show_nat (n div 10) @ [digit_char (n mod 10)])"
  by pat_completeness auto
termination
  by (relation "measure id") auto

definition repr_list :: "nat list \<Rightarrow> string" where
  "repr_list ns = ''['' @ join '', '' (map show_nat ns) @ '']''"

text \<open>
  Subscription of a sequence by an integer: a negative index counts from the end,
  an index outside the sequence raises \<^verbatim>\<open>IndexError\<close>.
\<close>

definition subscript :: "'a list \<Rightarrow> int \<Rightarrow> py_error + 'a" where
  "subscript xs i =
     (if 0 \<le> i \<and> i < int (length xs) then Inr (xs ! nat i)
      else if - int (length xs) \<le> i \<and> i < 0 then Inr (xs ! nat (i + int (length xs)))
      else Inl IndexError)"

text \<open>
  The body of the \<^verbatim>\<open>try\<close> block for one line read from the terminal. The
  builtin \<^verbatim>\<open>int\<close> is the parameter \<open>parse\<close> (\<open>None\<close>: it raises
  \<^verbatim>\<open>ValueError\<close>). The result \<open>Inr (Some move)\<close> is \<^verbatim>\<open>return move\<close>,
  \<open>Inr None\<close> is the \<^verbatim>\<open>else\<close> branch, \<open>Inl e\<close> an exception, which
  \<^verbatim>\<open>except Exception\<close> catches. \<^verbatim>\<open>and\<close> evaluates \<^verbatim>\<open>valid[move]\<close> only
  when the range test holds.
\<close>

definition try_move :: "(string \<Rightarrow> int option) \<Rightarrow> int list \<Rightarrow> string \<Rightarrow> py_error + int option" where
  "try_move parse valid line =
     (case parse line of
        None \<Rightarrow> Inl ValueError
      | Some move \<Rightarrow>
          if 0 \<le> move \<and> move < 64 then
            (case subscript valid move of
               Inl e \<Rightarrow> Inl e
             | Inr v \<Rightarrow> if v \<noteq> 0 then Inr (Some move) else Inr None)
          else Inr None)"

definition prompt :: string where
  "prompt = ''Enter your move (0-63): ''"

definition invalid_msg :: string where
  "invalid_msg = ''Invalid move. Try again.''"

definition please_msg :: string where
  "please_msg = ''Please enter a valid integer between 0 and 63.''"

text \<open>
  The \<^verbatim>\<open>while True\<close> loop over the lines the terminal still holds. The result is
  the text written and, when the loop returns, the move and the lines left. When
  the lines are used up \<^verbatim>\<open>input\<close> raises \<^verbatim>\<open>EOFError\<close>, which
  \<^verbatim>\<open>except Exception\<close> catches too, and the loop goes on writing the prompt and
  the message without ever returning: that is \<open>None\<close>.
\<close>

fun human_loop ::
  "(string \<Rightarrow> int option) \<Rightarrow> int list \<Rightarrow> string list \<Rightarrow> string list \<times> (int \<times> string list) option"
where
  "human_loop parse valid [] = ([], None)"
| "human_loop parse valid (line # rest) =
     (case try_move parse valid line of
        Inr (Some move) \<Rightarrow> ([prompt], Some (move, rest))
      | Inr None \<Rightarrow>
          (case human_loop parse valid rest of (out, r) \<Rightarrow> (prompt # invalid_msg # out, r))
      | Inl e \<Rightarrow>
          (case human_loop parse valid rest of (out, r) \<Rightarrow> (prompt # please_msg # out, r)))"

definition valid_moves_line :: "int list \<Rightarrow> string" where
  "valid_moves_line valid =
     ''Valid moves (0-63): '' @ repr_list (filter (\<lambda>i. valid ! i \<noteq> 0) [0..<length valid])"

definition human_player ::
  "'m world \<Rightarrow> (string \<Rightarrow> int option) \<Rightarrow> board \<Rightarrow> string list
     \<Rightarrow> event list \<times> string list \<times> (int \<times> string list) option"
where
  "human_player w parse b lines =
     (let valid = getValidMoves w b 1 in
      case human_loop parse valid lines of
        (out, r) \<Rightarrow> ([HumanPlayer b], display b @ [valid_moves_line valid] @ out, r))"

subsection \<open>\<^verbatim>\<open>play_game\<close>\<close>

text \<open>The driver's \<^verbatim>\<open>board * player\<close>: every cell times the player's sign.\<close>

definition canonicalize :: "board \<Rightarrow> int \<Rightarrow> board" where
  "canonicalize b player = map (map (\<lambda>x. x * player)) b"

definition announce :: "real \<Rightarrow> string" where
  "announce r =
     (if r = 1 then ''White (You) win!''
      else if r = - 1 then ''Black (AI) wins!''
      else ''Draw!'')"

text \<open>
  The first half of the loop body: who moves, and with what. The result is the
  calls made, the text written, and the action with the engine's new state and
  the lines left.
\<close>

definition take_turn ::
  "'m world \<Rightarrow> (string \<Rightarrow> int option) \<Rightarrow> board \<Rightarrow> int \<Rightarrow> 'm \<Rightarrow> string list
     \<Rightarrow> event list \<times> string list \<times> (int \<times> 'm \<times> string list) outcome"
where
  "take_turn w parse b player m lines =
     (if player = 1 then
        (case human_player w parse b lines of
           (evs, out, None) \<Rightarrow> (evs, out, Hangs)
         | (evs, out, Some (action, rest)) \<Rightarrow> (evs, out, Returns (action, m, rest)))
      else
        (case ai_player w m (canonicalize b player) of
           (evs, Returns (a, m')) \<Rightarrow> (evs, [''AI is thinking...''], Returns (int a, m', lines))
         | (evs, Raises e) \<Rightarrow> (evs, [''AI is thinking...''], Raises e)
         | (evs, Hangs) \<Rightarrow> (evs, [''AI is thinking...''], Hangs)))"

text \<open>
  How a run of the loop stands after a number of iterations: it has left the loop
  through \<^verbatim>\<open>break\<close>, an exception has escaped, a call never returns, or the
  loop is still going.
\<close>

datatype status = Finished | Raised py_error | Blocked | Running

text \<open>
  The loop, for at most \<open>n\<close> iterations. The result is the status, one entry per
  iteration begun (the board and the player at the head of the loop, and the calls
  made), and the text written.
\<close>

fun play_loop ::
  "'m world \<Rightarrow> (string \<Rightarrow> int option) \<Rightarrow> nat \<Rightarrow> board \<Rightarrow> int \<Rightarrow> 'm \<Rightarrow> string list
     \<Rightarrow> status \<times> (board \<times> int \<times> event list) list \<times> string list"
where
  "play_loop w parse 0 b player m lines = (Running, [], [])"
| "play_loop w parse (Suc n) b player m lines =
     (case take_turn w parse b player m lines of
        (evs, out, Hangs) \<Rightarrow> (Blocked, [(b, player, evs)], out)
      | (evs, out, Raises e) \<Rightarrow> (Raised e, [(b, player, evs)], out)
      | (evs, out, Returns (action, m', rest)) \<Rightarrow>
          (case getNextState w b player action of
             (b', player') \<Rightarrow>
               if getGameEnded w b' (- player') \<noteq> 0 then
                 (Finished, [(b, player, evs)],
                  out @ display b' @ [announce (getGameEnded w b' (- player'))])
               else
                 (case play_loop w parse n b' player' m' rest of
                    (st, tr, out') \<Rightarrow> (st, (b, player, evs) # tr, out @ out'))))"

definition play_game ::
  "'m world \<Rightarrow> (string \<Rightarrow> int option) \<Rightarrow> nat \<Rightarrow> 'm \<Rightarrow> string list
     \<Rightarrow> status \<times> (board \<times> int \<times> event list) list \<times> string list"
where
  "play_game w parse n m lines = play_loop w parse n (getInitBoard w) 1 m lines"

section \<open>Inputs for concrete runs\<close>

subsection \<open>The builtin \<^verbatim>\<open>int\<close> on a line of text\<close>

text \<open>
  The driver's functions take the builtin as a parameter. For concrete runs,
  \<open>py_int\<close> reads a line as \<^verbatim>\<open>int\<close> does. On a line of ASCII characters
  that is: white space (space, tab, line feed, vertical tab, form feed,
  carriage return) stripped at both ends, one optional sign, then decimal
  digits, where a single underscore may stand between two digits, and at most
  4300 digits in all; anything else is \<open>None\<close> (\<^verbatim>\<open>ValueError\<close>). On a line
  with a character outside ASCII \<^verbatim>\<open>int\<close> also reads the decimal digits of
  other scripts and strips other white space; what it makes of such a line is
  the parameter \<open>other\<close>.
\<close>

definition is_ascii :: "char \<Rightarrow> bool" where
  "is_ascii c = ((of_char c :: nat) < 128)"

definition is_space :: "char \<Rightarrow> bool" where
  "is_space c = (c \<in> set [CHR '' '', CHR 0x09, CHR 0x0A, CHR 0x0B, CHR 0x0C, CHR 0x0D])"

definition strip :: "string \<Rightarrow> string" where
  "strip s = rev (dropWhile is_space (rev (dropWhile is_space s)))"

definition is_digit :: "char \<Rightarrow> bool" where
  "is_digit c = (48 \<le> (of_char c :: nat) \<and> (of_char c :: nat) \<le> 57)"

fun digits_value :: "string \<Rightarrow> nat \<Rightarrow> bool \<Rightarrow> nat option" where
  "digits_value [] acc prev = (if prev then Some acc else None)"
| "digits_value (c # cs) acc prev =
     (if is_digit c then digits_value cs (10 * acc + (of_char c - 48)) True
      else if c = CHR ''_'' \<and> prev then digits_value cs acc False
      else None)"

definition max_str_digits :: nat where
  "max_str_digits = 4300"

definition py_int :: "(string \<Rightarrow> int option) \<Rightarrow> string \<Rightarrow> int option" where
  "py_int other s =
     (if list_ex (\<lambda>c. \<not> is_ascii c) s then other s
      else
        (case strip s of
           [] \<Rightarrow> None
         | c # cs \<Rightarrow>
             (let body = (if c = CHR ''-'' \<or> c = CHR ''+'' then cs else c # cs) in
              if max_str_digits < length (filter is_digit body) then None
              else if c = CHR ''-'' then map_option (\<lambda>n. - int n) (digits_value body 0 False)
              else map_option int (digits_value body 0 False))))"

text \<open>
  The lines of the concrete runs below are ASCII, so the parameter is never
  consulted there; it is set to the function without values.
\<close>

definition unread :: "string \<Rightarrow> int option" where
  "unread s = None"

subsection \<open>A small game and a fixed engine\<close>

text \<open>
  The game object and the engine are parameters of the driver. The sample game
  is played on the empty 8 by 8 board: a move puts the mover's ion on an empty
  cell, the players alternate, and the owner of cell \<open>1\<close> has won. Its
  \<^verbatim>\<open>getGameEnded\<close> is relative to the player asked about: \<open>1\<close> when that
  player owns the cell, \<open>-1\<close> when the opponent does, \<open>0\<close> while the cell is
  empty. The sample engine always answers with the one-hot distribution on
  action \<open>1\<close> and counts its calls.
\<close>

definition sample_init :: board where
  "sample_init = replicate 8 (replicate 8 0)"

definition put :: "board \<Rightarrow> nat \<Rightarrow> int \<Rightarrow> board" where
  "put b a v = b[a div 8 := (b ! (a div 8))[a mod 8 := v]]"

definition sample_valid :: "board \<Rightarrow> int \<Rightarrow> int list" where
  "sample_valid b player = map (\<lambda>x. if x = 0 then 1 else 0) (concat b)"

definition sample_next :: "board \<Rightarrow> int \<Rightarrow> int \<Rightarrow> board \<times> int" where
  "sample_next b player a = (put b (nat a) player, - player)"

definition sample_ended :: "board \<Rightarrow> int \<Rightarrow> real" where
  "sample_ended b player =
     (case b of (x0 # x1 # _) # _ \<Rightarrow> of_int (x1 * player) | _ \<Rightarrow> 0)"

definition sample_engine :: "nat \<Rightarrow> board \<Rightarrow> real \<Rightarrow> (real list \<times> nat) outcome" where
  "sample_engine m b temp = Returns ((replicate 64 0)[1 := 1], Suc m)"

definition sample_world :: "nat world" where
  "sample_world = \<lparr>getInitBoard = sample_init, getValidMoves = sample_valid,
     getNextState = sample_next, getGameEnded = sample_ended, getActionProb = sample_engine\<rparr>"

subsection \<open>What \<^verbatim>\<open>human_player\<close> accepts\<close>

text \<open>
  A line is a valid entry when \<^verbatim>\<open>int\<close> reads it as a number from \<open>0\<close> to
  \<open>63\<close> whose entry in \<^verbatim>\<open>valid\<close> exists and is not zero. A line that is
  not is answered with one of the two messages.
\<close>

definition valid_entry :: "(string \<Rightarrow> int option) \<Rightarrow> int list \<Rightarrow> string \<Rightarrow> bool" where
  "valid_entry parse valid line =
     (case parse line of
        None \<Rightarrow> False
      | Some move \<Rightarrow> 0 \<le> move \<and> move < 64 \<and> nat move < length valid \<and> valid ! nat move \<noteq> 0)"

definition reject_msg :: "(string \<Rightarrow> int option) \<Rightarrow> int list \<Rightarrow> string \<Rightarrow> string" where
  "reject_msg parse valid line =
     (case try_move parse valid line of Inl e \<Rightarrow> please_msg | Inr _ \<Rightarrow> invalid_msg)"

subsection \<open>Successive calls of \<^verbatim>\<open>ai_player\<close>\<close>


section \<open>The game model and the search engine\<close>

text \<open>
  The classes \<^verbatim>\<open>FluxGame\<close> and \<^verbatim>\<open>MCTS\<close> are code of the repository that is
  not among the sources. What the driver relies on is modelled in this section from
  the specification (its sections 3, 4.1, 4.3 and 7).
\<close>

subsection \<open>The game model\<close>

text \<open>
  Modelled from the spec: the operations of the GameModel (class \<^verbatim>\<open>FluxGame\<close>, not
  among the sources). The rules of a game are the fields of a record: the size of
  the fixed action space, the indicator vector of the actions legal for a player
  in a state, the state and the next player a move leads to, and how a state
  stands: ongoing, or ended with the sign of the winner (\<open>1\<close>: player \<open>+1\<close> has
  won, \<open>-1\<close>: player \<open>-1\<close> has won, \<open>0\<close>: a draw).
\<close>

datatype verdict = Ongoing | Ended int

record game_model =
  actionSize :: nat
  gm_legal :: "board \<Rightarrow> int \<Rightarrow> bool list"
  gm_move :: "board \<Rightarrow> int \<Rightarrow> nat \<Rightarrow> board \<times> int"
  gm_judge :: "board \<Rightarrow> verdict"

text \<open>
  Modelled from the spec: \<^verbatim>\<open>legalMoves(state, player)\<close>, a fixed-length indicator
  vector over the whole action space.
\<close>

definition legalMoves :: "game_model \<Rightarrow> board \<Rightarrow> int \<Rightarrow> bool list" where
  "legalMoves gm s player = gm_legal gm s player"

definition is_legal :: "game_model \<Rightarrow> board \<Rightarrow> int \<Rightarrow> nat \<Rightarrow> bool" where
  "is_legal gm s player a = (a < length (legalMoves gm s player) \<and> legalMoves gm s player ! a)"

text \<open>
  Modelled from the spec: \<^verbatim>\<open>applyMove(state, player, action)\<close> requires the action
  to be legal for the player in the state and fails with \<^verbatim>\<open>InvalidMoveError\<close>
  otherwise; it returns the resulting state and whose turn is next.
\<close>

definition applyMove :: "game_model \<Rightarrow> board \<Rightarrow> int \<Rightarrow> nat \<Rightarrow> py_error + board \<times> int" where
  "applyMove gm s player a =
     (if is_legal gm s player a then Inr (gm_move gm s player a) else Inl InvalidMoveError)"

text \<open>
  Modelled from the spec: \<^verbatim>\<open>result(state, player)\<close> (the method
  \<^verbatim>\<open>getGameEnded\<close> of \<^verbatim>\<open>FluxGame\<close>, not among the sources), the verdict on a
  state relative to a player: one of \<open>+1\<close>, \<open>-1\<close>, \<open>0\<close> and ongoing. The sign of
  the winner is seen from the player asked about.
\<close>

definition result :: "game_model \<Rightarrow> board \<Rightarrow> int \<Rightarrow> verdict" where
  "result gm s player =
     (case gm_judge gm s of Ongoing \<Rightarrow> Ongoing | Ended w \<Rightarrow> Ended (w * player))"

subsection \<open>The search engine\<close>

text \<open>
  Modelled from the spec: the search tree of the SearchEngine (class \<^verbatim>\<open>MCTS\<close>,
  not among the sources). A node is keyed by a canonical state and holds, per
  action, the visit count \<open>N\<close>, the accumulated value sum and the prior
  probability \<open>P\<close>. The configuration is the simulation budget and the
  exploration constant. The Evaluator answers a canonical state with a policy
  and a value, or fails.
\<close>

record node =
  visits :: "nat list"
  value_sum :: "real list"
  prior :: "real list"

type_synonym tree = "board \<rightharpoonup> node"

record config =
  numSimulations :: nat
  cpuct :: real

type_synonym evaluator = "board \<Rightarrow> py_error + real list \<times> real"

text \<open>
  Modelled from the spec: the selection rule of section 4.3, step 1. \<open>Q(a)\<close> is
  the mean backed-up value, \<open>0\<close> for an unvisited action; the score of a legal
  action is \<open>Q(a) + cpuct * P(a) * sqrt(sum_b N(b)) / (1 + N(a))\<close>; the score of
  an illegal action is minus infinity, here \<open>None\<close>, which lies below every
  \<open>Some x\<close>; ties are broken by the lowest action index.
\<close>

definition Qvalue :: "node \<Rightarrow> nat \<Rightarrow> real" where
  "Qvalue nd a = (if visits nd ! a = 0 then 0 else value_sum nd ! a / real (visits nd ! a))"

definition score :: "config \<Rightarrow> node \<Rightarrow> bool list \<Rightarrow> nat \<Rightarrow> real option" where
  "score cfg nd lg a =
     (if lg ! a then
        Some (Qvalue nd a + cpuct cfg * prior nd ! a * sqrt (real (sum_list (visits nd)))
                / (1 + real (visits nd ! a)))
      else None)"

definition select :: "config \<Rightarrow> node \<Rightarrow> bool list \<Rightarrow> nat" where
  "select cfg nd lg =
     (case argmax (map (score cfg nd lg) [0..<length lg]) of Inl e \<Rightarrow> 0 | Inr a \<Rightarrow> a)"

text \<open>
  Modelled from the spec: the uniform distribution over the legal moves, the
  fallback of section 4.3, step 3 and of section 7.
\<close>

definition uniform_legal :: "bool list \<Rightarrow> real list" where
  "uniform_legal lg = map (\<lambda>l. if l then 1 / real (length (filter id lg)) else 0) lg"

text \<open>
  Modelled from the spec: expansion (section 4.3, step 3). The Evaluator is
  called once; its policy is masked and renormalised over the legal moves,
  uniform over them when the legal priors sum to \<open>0\<close>; the node starts with no
  visits. A failing call, a policy of the wrong length or one with a negative
  sum over the legal moves is an \<^verbatim>\<open>EvaluatorError\<close>.
\<close>

definition expand :: "game_model \<Rightarrow> evaluator \<Rightarrow> board \<Rightarrow> py_error + node \<times> real" where
  "expand gm ev s =
     (case ev s of
        Inl e \<Rightarrow> Inl EvaluatorError
      | Inr (policy, v) \<Rightarrow>
          (let lg = legalMoves gm s 1;
               masked = map (\<lambda>(l, p). if l then p else 0) (zip lg policy);
               total = sum_list masked
           in if length policy \<noteq> length lg \<or> total < 0 then Inl EvaluatorError
              else Inr (\<lparr>visits = replicate (length lg) 0,
                         value_sum = replicate (length lg) 0,
                         prior = (if total = 0 then uniform_legal lg
                                  else map (\<lambda>p. p / total) masked)\<rparr>, v)))"

text \<open>
  Modelled from the spec: backup of one step (section 4.3, step 4): the visit
  count of the action goes up by one and the value is added to its sum.
\<close>

definition backup :: "tree \<Rightarrow> board \<Rightarrow> nat \<Rightarrow> real \<Rightarrow> tree" where
  "backup t s a v =
     (case t s of
        None \<Rightarrow> t
      | Some nd \<Rightarrow>
          t(s \<mapsto> nd\<lparr>visits := (visits nd)[a := visits nd ! a + 1],
                     value_sum := (value_sum nd)[a := value_sum nd ! a + v]\<rparr>))"

text \<open>
  Modelled from the spec: one simulation from a canonical state (section 4.3,
  steps 1 to 4), the player to move being \<open>+1\<close>. A terminal state yields its
  result for the player to move; a state not yet in the tree is expanded and
  yields the Evaluator's value; otherwise the selected action is applied, the
  simulation goes on from the canonical form of the next state, and its value,
  negated, is backed up. The result is the value for the player to move and the
  tree. The first argument bounds the number of plies of the descent; a descent
  that needs more does not return.
\<close>

fun simulate ::
  "nat \<Rightarrow> game_model \<Rightarrow> evaluator \<Rightarrow> config \<Rightarrow> tree \<Rightarrow> board \<Rightarrow> (real \<times> tree) outcome"
where
  "simulate 0 gm ev cfg t s = Hangs"
| "simulate (Suc d) gm ev cfg t s =
     (case result gm s 1 of
        Ended r \<Rightarrow> Returns (real_of_int r, t)
      | Ongoing \<Rightarrow>
          (case t s of
             None \<Rightarrow>
               (case expand gm ev s of
                  Inl e \<Rightarrow> Raises e
                | Inr (nd, v) \<Rightarrow> Returns (v, t(s \<mapsto> nd)))
           | Some nd \<Rightarrow>
               (let a = select cfg nd (legalMoves gm s 1) in
                case applyMove gm s 1 a of
                  Inl e \<Rightarrow> Raises e
                | Inr (s', player') \<Rightarrow>
                    (case simulate d gm ev cfg t (canonicalize s' player') of
                       Returns (v, t') \<Rightarrow> Returns (- v, backup t' s a (- v))
                     | Raises e \<Rightarrow> Raises e
                     | Hangs \<Rightarrow> Hangs))))"

text \<open>
  Modelled from the spec: the simulations of one decision run one after the
  other, each on the tree the one before has left (section 5); a failure aborts
  the decision.
\<close>

fun simulations ::
  "nat \<Rightarrow> nat \<Rightarrow> game_model \<Rightarrow> evaluator \<Rightarrow> config \<Rightarrow> tree \<Rightarrow> board \<Rightarrow> tree outcome"
where
  "simulations 0 d gm ev cfg t s = Returns t"
| "simulations (Suc k) d gm ev cfg t s =
     (case simulate d gm ev cfg t s of
        Returns (v, t') \<Rightarrow> simulations k d gm ev cfg t' s
      | Raises e \<Rightarrow> Raises e
      | Hangs \<Rightarrow> Hangs)"

text \<open>
  Modelled from the spec: the distribution returned (section 4.3, step 5, and
  section 7). It is proportional to the visit counts at the root. When the
  temperature is \<open>0\<close> it is one-hot on the action with the highest count, ties
  broken by the lowest index. Otherwise each count is raised to
  \<open>1/temperature\<close> before renormalising; when all counts are zero this would
  divide by zero, and the distribution falls back to the uniform one over the
  legal moves.
\<close>

definition root_counts :: "game_model \<Rightarrow> tree \<Rightarrow> board \<Rightarrow> nat list" where
  "root_counts gm t s =
     (case t s of None \<Rightarrow> replicate (actionSize gm) 0 | Some nd \<Rightarrow> visits nd)"

definition one_hot :: "nat \<Rightarrow> nat \<Rightarrow> real list" where
  "one_hot n a = (replicate n 0)[a := 1]"

definition highest :: "nat list \<Rightarrow> nat" where
  "highest counts = (case argmax counts of Inl e \<Rightarrow> 0 | Inr a \<Rightarrow> a)"

definition action_probs :: "bool list \<Rightarrow> nat list \<Rightarrow> real \<Rightarrow> real list" where
  "action_probs lg counts temp =
     (if temp = 0 then one_hot (length counts) (highest counts)
      else if sum_list counts = 0 then uniform_legal lg
      else (let xs = map (\<lambda>c. real c powr (1 / temp)) counts
            in map (\<lambda>x. x / sum_list xs) xs))"

text \<open>
  Modelled from the spec: \<^verbatim>\<open>getActionProb(rootState, temperature)\<close>. The engine
  object holds the game, the Evaluator and the configuration, and no state across
  calls: the tree is built anew by every call and discarded with it. Selection
  starts at the root, so the root of an ongoing game is expanded before the first
  simulation; then the configured number of simulations run from the root. The
  root state is taken as canonical, the player to move being \<open>+1\<close>.
\<close>

record mcts =
  mcts_game :: game_model
  mcts_nnet :: evaluator
  mcts_args :: config
  mcts_depth :: nat

definition search :: "mcts \<Rightarrow> board \<Rightarrow> tree outcome" where
  "search m s =
     (case result (mcts_game m) s 1 of
        Ended r \<Rightarrow> Returns Map.empty
      | Ongoing \<Rightarrow>
          (case expand (mcts_game m) (mcts_nnet m) s of
             Inl e \<Rightarrow> Raises e
           | Inr (nd, v) \<Rightarrow>
               simulations (numSimulations (mcts_args m)) (mcts_depth m) (mcts_game m)
                 (mcts_nnet m) (mcts_args m) [s \<mapsto> nd] s))"

definition mcts_getActionProb :: "mcts \<Rightarrow> board \<Rightarrow> real \<Rightarrow> (real list \<times> mcts) outcome" where
  "mcts_getActionProb m s temp =
     (case search m s of
        Returns t \<Rightarrow>
          Returns (action_probs (legalMoves (mcts_game m) s 1) (root_counts (mcts_game m) t s) temp, m)
      | Raises e \<Rightarrow> Raises e
      | Hangs \<Rightarrow> Hangs)"

subsection \<open>Well-formed games and trees\<close>

text \<open>
  A game is well formed when the indicator vector of the legal moves has the
  length of the action space in every state. A tree is well formed when every
  node has one visit count per action and only legal actions have been visited.
\<close>

definition game_ok :: "game_model \<Rightarrow> bool" where
  "game_ok gm = (\<forall>s p. length (gm_legal gm s p) = actionSize gm)"

definition tree_ok :: "game_model \<Rightarrow> tree \<Rightarrow> bool" where
  "tree_ok gm t =
     (\<forall>s nd. t s = Some nd \<longrightarrow>
        length (visits nd) = actionSize gm \<and>
        (\<forall>a < actionSize gm. 0 < visits nd ! a \<longrightarrow> is_legal gm s 1 a))"

text \<open>
  A game can be played out by the search on the states of a given shape when,
  at every such state at which the game is ongoing, the expansion succeeds, some
  action is legal, and every legal move leads to a state whose canonical form
  has the shape again and a smaller rank.
\<close>

definition playable :: "game_model \<Rightarrow> evaluator \<Rightarrow> (board \<Rightarrow> bool) \<Rightarrow> (board \<Rightarrow> nat) \<Rightarrow> bool" where
  "playable gm ev shape rank =
     (\<forall>s. shape s \<and> result gm s 1 = Ongoing \<longrightarrow>
        (\<exists>nd v. expand gm ev s = Inr (nd, v)) \<and>
        (\<exists>a. is_legal gm s 1 a) \<and>
        (\<forall>a s' p'. is_legal gm s 1 a \<and> gm_move gm s 1 a = (s', p') \<longrightarrow>
           shape (canonicalize s' p') \<and> rank (canonicalize s' p') < rank s))"

subsection \<open>The sample game as a game model, and a uniform Evaluator\<close>

text \<open>
  The sample game of the driver's runs, as a game model: every empty cell is a
  legal move for either player (a board with fewer than 64 cells counts the
  missing ones as taken), a move puts the mover's ion on the cell and hands the
  turn over, and the owner of cell \<open>1\<close> has won. The Evaluator gives
  every action the same prior and every state the value \<open>0\<close>. The engine runs
  two simulations per decision, to a depth of at most 65 plies, one more than
  the board has cells.
\<close>

definition sample_judge :: "board \<Rightarrow> verdict" where
  "sample_judge b =
     (case b of (x0 # x1 # _) # _ \<Rightarrow> if x1 = 0 then Ongoing else Ended x1 | _ \<Rightarrow> Ongoing)"

definition sample_gm :: game_model where
  "sample_gm = \<lparr>actionSize = 64,
     gm_legal = (\<lambda>b player. map (\<lambda>x. x = 0) (take 64 (concat b @ replicate 64 1))),
     gm_move = (\<lambda>b player a. (put b a player, - player)),
     gm_judge = sample_judge\<rparr>"

definition uniform_evaluator :: evaluator where
  "uniform_evaluator s = Inr (replicate 64 (1 / 64), 0)"

definition sample_mcts :: mcts where
  "sample_mcts = \<lparr>mcts_game = sample_gm, mcts_nnet = uniform_evaluator,
     mcts_args = \<lparr>numSimulations = 2, cpuct = 1\<rparr>, mcts_depth = 65\<rparr>"

definition engine_world :: "mcts world" where
  "engine_world = \<lparr>getInitBoard = sample_init, getValidMoves = sample_valid,
     getNextState = sample_next, getGameEnded = sample_ended,
     getActionProb = mcts_getActionProb\<rparr>"

text \<open>
  The boards of the sample game have eight rows of eight cells; their rank is
  the number of empty cells.
\<close>

definition sample_shape :: "board \<Rightarrow> bool" where
  "sample_shape b = (length b = 8 \<and> (\<forall>r \<in> set b. length r = 8))"

definition empty_cells :: "int list \<Rightarrow> nat" where
  "empty_cells r = length (filter (\<lambda>x. x = 0) r)"

definition sample_rank :: "board \<Rightarrow> nat" where
  "sample_rank b = sum_list (map empty_cells b)"

text \<open>A board with an ion of player \<open>+1\<close> on every cell: no action is legal.\<close>

definition sample_full :: board where
  "sample_full = replicate 8 (replicate 8 1)"

text \<open>
  The square root of a visit total, as a constant of its own, for computing the
  scores of a concrete search: the totals \<open>0\<close> and \<open>1\<close>, which a search of
  two simulations meets, have the roots \<open>0\<close> and \<open>1\<close>.
\<close>

definition visits_root :: "nat \<Rightarrow> real" where
  "visits_root n = sqrt (real n)"

subsection \<open>An engine that keeps its tree\<close>





text \<open>
  The root node of the sample game after action \<open>0\<close> has been visited once, with
  value \<open>0\<close>, and action \<open>1\<close>, which wins the game, \<open>k\<close> times.
\<close>

definition sample_node :: "nat \<Rightarrow> node" where
  "sample_node k = \<lparr>visits = (replicate 64 0)[0 := 1, 1 := k],
     value_sum = (replicate 64 0)[1 := real k], prior = replicate 64 (1 / 64)\<rparr>"


section \<open>Properties of the driver\<close>

subsection \<open>The symbols of \<^verbatim>\<open>display\<close>\<close>

text \<open>
  C9. The symbol of a cell follows the cell codes: \<open>0\<close> is a dot, \<open>1\<close> the white
  ion, \<open>-1\<close> the black ion, each of \<open>2, 3, 4, 5\<close> the white node, each of
  \<open>-2, -3, -4, -5\<close> the black node, and every other value a question mark; the
  six symbols are pairwise different.
\<close>

theorem symbol_codes:
  "(x = 0 \<longrightarrow> symbol x = ''.'') \<and>
   (x = 1 \<longrightarrow> symbol x = white_ion) \<and>
   (x = - 1 \<longrightarrow> symbol x = black_ion) \<and>
   (x \<in> {2, 3, 4, 5} \<longrightarrow> symbol x = white_node) \<and>
   (x \<in> {- 2, - 3, - 4, - 5} \<longrightarrow> symbol x = black_node) \<and>
   (x \<notin> {0, 1, - 1, 2, 3, 4, 5, - 2, - 3, - 4, - 5} \<longrightarrow> symbol x = ''?'') \<and>
   distinct [''.'', white_ion, black_ion, white_node, black_node, ''?'']"
  by (auto simp add: symbol_def white_ion_def black_ion_def white_node_def black_node_def)

theorem symbol_codes_witness:
  "symbol 0 = ''.'' \<and> symbol 1 = white_ion \<and> symbol (- 1) = black_ion \<and>
   symbol 2 = white_node \<and> symbol 5 = white_node \<and> symbol (- 3) = black_node \<and>
   symbol (- 5) = black_node \<and> symbol 6 = ''?'' \<and> symbol (- 9) = ''?''"
  using symbol_codes [of 0] symbol_codes [of 1] symbol_codes [of "- 1"] symbol_codes [of 2]
    symbol_codes [of 5] symbol_codes [of "- 3"] symbol_codes [of "- 5"] symbol_codes [of 6]
    symbol_codes [of "- 9"]
  by simp

subsection \<open>The board as the player to move sees it\<close>

text \<open>
  C7. Multiplying by the sign \<open>1\<close> leaves the board as it is, multiplying by
  \<open>-1\<close> inverts the sign of every cell, and a board already multiplied by a
  player's sign is not changed by multiplying it by \<open>1\<close>.
\<close>

theorem canonicalize_laws:
  "canonicalize b 1 = b \<and>
   canonicalize b (- 1) = map (map uminus) b \<and>
   canonicalize (canonicalize b p) 1 = canonicalize b p"
  by (simp add: canonicalize_def)

subsection \<open>What \<^verbatim>\<open>np.argmax\<close> returns\<close>

lemma argmax_scan_spec:
  assumes "length pre = i" "bi < i" "best = pre ! bi"
    and "\<forall>j < i. pre ! j \<le> best" and "\<forall>j < bi. pre ! j < best"
  shows "argmax_scan xs i best bi < length (pre @ xs) \<and>
         (\<forall>j < length (pre @ xs). (pre @ xs) ! j \<le> (pre @ xs) ! argmax_scan xs i best bi) \<and>
         (\<forall>j < argmax_scan xs i best bi. (pre @ xs) ! j < (pre @ xs) ! argmax_scan xs i best bi)"
  using assms
proof (induction xs arbitrary: pre i best bi)
  case Nil
  then show ?case by simp
next
  case (Cons x xs)
  let ?pre = "pre @ [x]"
  have len: "length ?pre = Suc i" using Cons.prems by simp
  show ?case
  proof (cases "best < x")
    case True
    have a: "i < Suc i" by simp
    have b: "x = ?pre ! i" using Cons.prems(1) by (metis nth_append_length)
    have c: "\<forall>j < Suc i. ?pre ! j \<le> x"
      using Cons.prems True by (auto simp add: nth_append less_Suc_eq)
    have d: "\<forall>j < i. ?pre ! j < x"
      using Cons.prems True by (auto simp add: nth_append)
    from Cons.IH [OF len a b c d] True show ?thesis by simp
  next
    case False
    have a: "bi < Suc i" using Cons.prems by simp
    have b: "best = ?pre ! bi" using Cons.prems by (simp add: nth_append)
    have c: "\<forall>j < Suc i. ?pre ! j \<le> best"
      using Cons.prems False by (auto simp add: nth_append less_Suc_eq)
    have d: "\<forall>j < bi. ?pre ! j < best"
      using Cons.prems by (auto simp add: nth_append)
    from Cons.IH [OF len a b c d] False show ?thesis by simp
  qed
qed

lemma argmax_spec:
  assumes "argmax xs = Inr a"
  shows "a < length xs \<and> (\<forall>j < length xs. xs ! j \<le> xs ! a) \<and> (\<forall>j < a. xs ! j < xs ! a)"
proof (cases xs)
  case Nil
  with assms show ?thesis by simp
next
  case (Cons x ys)
  have "argmax_scan ys 1 x 0 < length ([x] @ ys) \<and>
         (\<forall>j < length ([x] @ ys). ([x] @ ys) ! j \<le> ([x] @ ys) ! argmax_scan ys 1 x 0) \<and>
         (\<forall>j < argmax_scan ys 1 x 0. ([x] @ ys) ! j < ([x] @ ys) ! argmax_scan ys 1 x 0)"
    by (rule argmax_scan_spec) simp_all
  with Cons assms show ?thesis by simp
qed

lemma argmax_returns:
  "xs \<noteq> [] \<Longrightarrow> \<exists>a. argmax xs = Inr a"
  by (cases xs) simp_all

lemma argmax_unique:
  assumes "a < length xs" "\<forall>j < length xs. xs ! j \<le> xs ! a" "\<forall>j < a. xs ! j < xs ! a"
  shows "argmax xs = Inr a"
proof -
  from assms have "xs \<noteq> []" by auto
  then obtain b where b: "argmax xs = Inr b" using argmax_returns by blast
  from argmax_spec [OF b] have sb: "b < length xs" "\<forall>j < length xs. xs ! j \<le> xs ! b"
    "\<forall>j < b. xs ! j < xs ! b" by simp_all
  have "\<not> a < b" using sb(3) assms(1,2) sb(1) by (meson leD)
  moreover have "\<not> b < a" using assms(3) sb(1,2) assms(1) by (meson leD)
  ultimately have "a = b" by simp
  with b show ?thesis by simp
qed

subsection \<open>The board each player is called with\<close>

lemma take_turn_events:
  "fst (take_turn w parse b player m lines) =
     (if player = 1 then [HumanPlayer b]
      else [AiPlayer (canonicalize b player), GetActionProb (canonicalize b player) 0])"
  by (simp add: take_turn_def human_player_def ai_player_def Let_def
      split: prod.splits option.splits outcome.splits)

lemma play_loop_calls:
  "(c, p, evs) \<in> set (fst (snd (play_loop w parse n b player m lines))) \<Longrightarrow>
     evs = (if p = 1 then [HumanPlayer c]
            else [AiPlayer (canonicalize c p), GetActionProb (canonicalize c p) 0])"
proof (induction n arbitrary: b player m lines)
  case 0
  then show ?case by simp
next
  case (Suc n)
  obtain evs0 out r where tt: "take_turn w parse b player m lines = (evs0, out, r)"
    by (cases "take_turn w parse b player m lines")
  have e0: "evs0 = (if player = 1 then [HumanPlayer b]
      else [AiPlayer (canonicalize b player), GetActionProb (canonicalize b player) 0])"
    using take_turn_events [of w parse b player m lines] tt by simp
  show ?case
  proof (cases r)
    case Hangs
    with Suc.prems tt e0 show ?thesis by simp
  next
    case (Raises e)
    with Suc.prems tt e0 show ?thesis by simp
  next
    case (Returns x)
    obtain action m' rest where x: "x = (action, m', rest)"
      by (cases x)
    obtain b' player' where ns: "getNextState w b player action = (b', player')"
      by (cases "getNextState w b player action")
    show ?thesis
    proof (cases "getGameEnded w b' (- player') \<noteq> 0")
      case True
      with Suc.prems tt e0 Returns x ns show ?thesis by simp
    next
      case False
      obtain st tr out' where rec: "play_loop w parse n b' player' m' rest = (st, tr, out')"
        by (cases "play_loop w parse n b' player' m' rest")
      from Suc.prems tt Returns x ns False rec
      have "(c, p, evs) = (b, player, evs0) \<or> (c, p, evs) \<in> set tr" by simp
      then show ?thesis
      proof
        assume "(c, p, evs) = (b, player, evs0)"
        with e0 show ?thesis by simp
      next
        assume "(c, p, evs) \<in> set tr"
        with rec have "(c, p, evs) \<in> set (fst (snd (play_loop w parse n b' player' m' rest)))"
          by simp
        from Suc.IH [OF this] show ?thesis .
      qed
    qed
  qed
qed

text \<open>
  C2. In every iteration of the loop of \<^verbatim>\<open>play_game\<close> begun with the board
  \<open>c\<close> and the player \<open>p\<close>: when \<open>p\<close> is \<open>-1\<close>, \<^verbatim>\<open>ai_player\<close> and
  through it \<^verbatim>\<open>getActionProb\<close> (with temperature \<open>0\<close>) receive \<open>c\<close> times
  the player's sign, which is \<open>c\<close> with every cell negated; when \<open>p\<close> is \<open>1\<close>,
  \<^verbatim>\<open>human_player\<close> receives \<open>c\<close> itself.
\<close>

theorem play_game_board_passed:
  assumes "(c, p, evs) \<in> set (fst (snd (play_game w parse n m lines)))"
  shows "(p = - 1 \<longrightarrow>
            evs = [AiPlayer (canonicalize c p), GetActionProb (canonicalize c p) 0] \<and>
            canonicalize c p = map (map uminus) c) \<and>
         (p = 1 \<longrightarrow> evs = [HumanPlayer c])"
  using play_loop_calls [of c p evs w parse n "getInitBoard w" 1 m lines] assms
  by (simp add: play_game_def canonicalize_def)

lemma sample_trace:
  "fst (snd (play_game sample_world (py_int unread) 5 0 [''0''])) =
     [(sample_init, 1, [HumanPlayer sample_init]),
      (put sample_init 0 1, - 1,
       [AiPlayer (canonicalize (put sample_init 0 1) (- 1)),
        GetActionProb (canonicalize (put sample_init 0 1) (- 1)) 0])]"
  by code_simp

theorem play_game_board_passed_witness:
  "(put sample_init 0 1, - 1,
      [AiPlayer (map (map uminus) (put sample_init 0 1)),
       GetActionProb (map (map uminus) (put sample_init 0 1)) 0])
     \<in> set (fst (snd (play_game sample_world (py_int unread) 5 0 [''0'']))) \<and>
   (sample_init, 1, [HumanPlayer sample_init])
     \<in> set (fst (snd (play_game sample_world (py_int unread) 5 0 [''0''])))"
proof -
  let ?tr = "fst (snd (play_game sample_world (py_int unread) 5 0 [''0'']))"
  let ?evs = "[AiPlayer (canonicalize (put sample_init 0 1) (- 1)),
        GetActionProb (canonicalize (put sample_init 0 1) (- 1)) 0]"
  have m1: "(put sample_init 0 1, - 1, ?evs) \<in> set ?tr"
    by (simp add: sample_trace)
  have m2: "(sample_init, 1, [HumanPlayer sample_init]) \<in> set ?tr"
    by (simp add: sample_trace)
  from play_game_board_passed [OF m1]
  have "canonicalize (put sample_init 0 1) (- 1) = map (map uminus) (put sample_init 0 1)"
    by simp
  with m1 m2 show ?thesis by simp
qed

subsection \<open>\<^verbatim>\<open>human_player\<close> returns a legal move\<close>

lemma try_move_valid_entry:
  "try_move parse valid line = Inr (Some move) \<longleftrightarrow>
     (valid_entry parse valid line \<and> parse line = Some move)"
  by (auto simp add: try_move_def valid_entry_def subscript_def split: option.splits sum.splits)

lemma valid_entry_subscript:
  assumes "valid_entry parse valid line"
  shows "\<exists>a v. parse line = Some a \<and> 0 \<le> a \<and> a < 64 \<and> subscript valid a = Inr v \<and> v \<noteq> 0"
proof -
  from assms obtain a where a: "parse line = Some a" "0 \<le> a" "a < 64"
      "nat a < length valid" "valid ! nat a \<noteq> 0"
    by (auto simp add: valid_entry_def split: option.splits)
  then have "subscript valid a = Inr (valid ! nat a)"
    by (simp add: subscript_def)
  with a show ?thesis by blast
qed

lemma reject_msg_cases:
  "\<not> valid_entry parse valid line \<Longrightarrow>
     reject_msg parse valid line =
       (case parse line of
          None \<Rightarrow> please_msg
        | Some move \<Rightarrow>
            if 0 \<le> move \<and> move < 64 \<and> length valid \<le> nat move then please_msg
            else invalid_msg)"
  by (auto simp add: reject_msg_def try_move_def valid_entry_def subscript_def
      split: option.splits sum.splits)

lemma human_loop_first_valid:
  assumes "\<forall>x \<in> set pre. \<not> valid_entry parse valid x"
    and "valid_entry parse valid line"
  shows "human_loop parse valid (pre @ line # post) =
           (concat (map (\<lambda>x. [prompt, reject_msg parse valid x]) pre) @ [prompt],
            Some (the (parse line), post))"
  using assms
proof (induction pre)
  case Nil
  then obtain move where "parse line = Some move"
    by (auto simp add: valid_entry_def split: option.splits)
  with Nil show ?case
    using try_move_valid_entry [of parse valid line move] by simp
next
  case (Cons x pre)
  then have nx: "\<not> valid_entry parse valid x" by simp
  from Cons have IH: "human_loop parse valid (pre @ line # post) =
           (concat (map (\<lambda>x. [prompt, reject_msg parse valid x]) pre) @ [prompt],
            Some (the (parse line), post))"
    by simp
  show ?case
  proof (cases "try_move parse valid x")
    case (Inl e)
    then show ?thesis using IH by (simp add: reject_msg_def)
  next
    case (Inr r)
    show ?thesis
    proof (cases r)
      case None
      with Inr show ?thesis using IH by (simp add: reject_msg_def)
    next
      case (Some mv)
      with Inr nx show ?thesis using try_move_valid_entry [of parse valid x mv] by simp
    qed
  qed
qed

lemma split_first_valid:
  assumes "\<exists>x \<in> set lines. P x"
  shows "\<exists>pre line post. lines = pre @ line # post \<and> (\<forall>x \<in> set pre. \<not> P x) \<and> P line"
  using assms split_list_first_prop [of lines P] by blast

lemma human_loop_no_valid:
  "\<forall>x \<in> set lines. \<not> valid_entry parse valid x \<Longrightarrow> snd (human_loop parse valid lines) = None"
proof (induction lines)
  case Nil
  then show ?case by simp
next
  case (Cons x lines)
  then have nx: "\<not> valid_entry parse valid x" by simp
  then have "\<And>mv. try_move parse valid x \<noteq> Inr (Some mv)"
    using try_move_valid_entry [of parse valid x] by simp
  with Cons show ?case
    by (auto split: sum.splits option.splits prod.splits)
qed

text \<open>
  C8. When some line of the input is a valid entry, \<^verbatim>\<open>human_player\<close> returns:
  the move is the number on the first valid entry, it lies in \<open>0..63\<close> and its
  entry in \<^verbatim>\<open>valid = g.getValidMoves(board, 1)\<close> is not zero; every line before
  it was consumed and answered with a message and a new prompt; the lines after
  it are left unread. No exception is among the results.
\<close>

theorem human_player_legal:
  assumes "\<exists>line \<in> set lines. valid_entry parse (getValidMoves w b 1) line"
  shows "\<exists>pre line post a v.
           lines = pre @ line # post \<and>
           (\<forall>x \<in> set pre. \<not> valid_entry parse (getValidMoves w b 1) x) \<and>
           parse line = Some a \<and>
           0 \<le> a \<and> a < 64 \<and>
           subscript (getValidMoves w b 1) a = Inr v \<and> v \<noteq> 0 \<and>
           human_player w parse b lines =
             ([HumanPlayer b],
              display b @ [valid_moves_line (getValidMoves w b 1)] @
                concat (map (\<lambda>x. [prompt, reject_msg parse (getValidMoves w b 1) x]) pre) @
                [prompt],
              Some (a, post))"
proof -
  let ?valid = "getValidMoves w b 1"
  from split_first_valid [OF assms] obtain pre line post where
    sp: "lines = pre @ line # post" and
    pre: "\<forall>x \<in> set pre. \<not> valid_entry parse ?valid x" and
    ok: "valid_entry parse ?valid line"
    by blast
  from valid_entry_subscript [OF ok] obtain a v where
    a: "parse line = Some a" "0 \<le> a" "a < 64" "subscript ?valid a = Inr v" "v \<noteq> 0"
    by blast
  have "human_loop parse ?valid lines =
          (concat (map (\<lambda>x. [prompt, reject_msg parse ?valid x]) pre) @ [prompt], Some (a, post))"
    using human_loop_first_valid [OF pre ok, of post] sp a by simp
  then have "human_player w parse b lines =
             ([HumanPlayer b],
              display b @ [valid_moves_line ?valid] @
                concat (map (\<lambda>x. [prompt, reject_msg parse ?valid x]) pre) @ [prompt],
              Some (a, post))"
    by (simp add: human_player_def Let_def)
  with sp pre a show ?thesis by blast
qed

theorem human_player_legal_witness:
  "valid_entry (py_int unread) (getValidMoves sample_world sample_init 1) ''3'' \<and>
   snd (snd (human_player sample_world (py_int unread) sample_init [''x'', ''99'', ''3'', ''4''])) =
      Some (3, [''4''])"
proof -
  let ?valid = "getValidMoves sample_world sample_init 1"
  let ?lines = "[''x'', ''99'', ''3'', ''4'']"
  have ok: "valid_entry (py_int unread) ?valid ''3''"
    by code_simp
  have h: "\<exists>line \<in> set ?lines. valid_entry (py_int unread) ?valid line"
    using ok by simp
  from human_player_legal [OF h] obtain a post where
    r: "snd (snd (human_player sample_world (py_int unread) sample_init ?lines)) = Some (a, post)"
    by force
  have "human_loop (py_int unread) ?valid ?lines =
          ([prompt, please_msg, prompt, invalid_msg, prompt], Some (3, [''4'']))"
    by code_simp
  then have "snd (snd (human_player sample_world (py_int unread) sample_init ?lines)) = Some (3, [''4''])"
    by (simp add: human_player_def Let_def del: human_loop.simps)
  with r ok show ?thesis by simp
qed

subsection \<open>The announcement at the end of a game\<close>

text \<open>
  The sample game's result is relative to the player asked about, and the
  announcement is read off the number alone.
\<close>

lemma sample_ended_negation:
  "sample_ended b (- p) = - sample_ended b p"
  by (simp add: sample_ended_def split: list.splits)

lemma announce_cases:
  "(announce r = ''White (You) win!'' \<longleftrightarrow> r = 1) \<and>
   (announce r = ''Black (AI) wins!'' \<longleftrightarrow> r = - 1) \<and>
   (announce r = ''Draw!'' \<longleftrightarrow> r \<noteq> 1 \<and> r \<noteq> - 1)"
  by (simp add: announce_def)

lemma play_loop_last_iteration:
  assumes "take_turn w parse b player m lines = (evs, out, Returns (action, m', rest))"
    and "getNextState w b player action = (b', player')"
    and "getGameEnded w b' (- player') \<noteq> 0"
  shows "play_loop w parse (Suc n) b player m lines =
           (Finished, [(b, player, evs)],
            out @ display b' @ [announce (getGameEnded w b' (- player'))])"
  using assms by simp

lemma black_win_read_as_white:
  assumes "getGameEnded w b' (- 1) = - getGameEnded w b' 1"
    and "getGameEnded w b' 1 = - 1"
  shows "announce (getGameEnded w b' (- 1)) = ''White (You) win!''"
  using assms by (simp add: announce_def)

text \<open>
  C1. A run of the sample game: White (the human) takes cell \<open>0\<close>, Black (the
  engine) takes cell \<open>1\<close> and has won. After Black's move
  \<^verbatim>\<open>getNextState\<close> has made White the player to move, so the driver asks
  for the result relative to Black, reads \<open>1\<close>, and announces White as the
  winner, although the result relative to White is \<open>-1\<close>.
\<close>

theorem black_wins_announced_as_white:
  "fst (play_game sample_world (py_int unread) 5 0 [''0'']) = Finished \<and>
   last (snd (snd (play_game sample_world (py_int unread) 5 0 [''0'']))) = ''White (You) win!'' \<and>
   getNextState sample_world (put sample_init 0 1) (- 1) 1 =
     (put (put sample_init 0 1) 1 (- 1), 1) \<and>
   getGameEnded sample_world (put (put sample_init 0 1) 1 (- 1)) 1 = - 1 \<and>
   getGameEnded sample_world (put (put sample_init 0 1) 1 (- 1)) (- 1) = 1"
  by code_simp

subsection \<open>Attribute access on a \<^verbatim>\<open>dotdict\<close>\<close>

text \<open>
  A key that is also the name of a method of \<^verbatim>\<open>dict\<close> is not reached by
  attribute access: with \<^verbatim>\<open>d = dotdict({'items': 1})\<close> the subscription
  \<^verbatim>\<open>d['items']\<close> is \<open>1\<close> and \<^verbatim>\<open>d.items\<close> is the method; and on an empty
  \<^verbatim>\<open>dotdict\<close> the attribute \<^verbatim>\<open>keys\<close>, which is no key, raises nothing.
\<close>

theorem dotdict_attribute_shadowed:
  "getitem [''items'' \<mapsto> PyInt 1] ''items'' = Inr (PyInt 1) \<and>
   attr_get dict_class [''items'' \<mapsto> PyInt 1] ''items'' = Inr (PyMethod ''items'') \<and>
   getitem (Map.empty :: pyobj pydict) ''keys'' = Inl (KeyError ''keys'') \<and>
   attr_get dict_class Map.empty ''keys'' = Inr (PyMethod ''keys'') \<and>
   hasattr dict_class Map.empty ''keys'' = Inr True"
  by (simp add: getitem_def attr_get_def hasattr_def dict_class_def dict_methods_def)

text \<open>
  C10, for the names the default lookup does not find. For such a name \<open>k\<close>:
  when \<open>k\<close> is a key, \<^verbatim>\<open>d.k\<close> is \<^verbatim>\<open>d[k]\<close>; when it is not a key,
  \<^verbatim>\<open>d.k\<close> raises \<^verbatim>\<open>KeyError\<close>, and so does \<^verbatim>\<open>hasattr(d, k)\<close> rather than
  answering \<^verbatim>\<open>False\<close>. After \<^verbatim>\<open>d.k = v\<close>, for any name, \<^verbatim>\<open>d[k]\<close> is \<open>v\<close>.
\<close>

theorem dotdict_attribute_access:
  assumes "cls k = None"
  shows "(d k = Some v \<longrightarrow> getitem d k = Inr v \<and> attr_get cls d k = Inr v) \<and>
         getitem (attr_set d k v') k = Inr v' \<and>
         (d k = None \<longrightarrow>
            attr_get cls d k = Inl (KeyError k) \<and> hasattr cls d k = Inl (KeyError k))"
  using assms
  by (simp add: getitem_def attr_get_def attr_set_def hasattr_def dotdict_getattr_def
      dotdict_setattr_def)

theorem dotdict_attribute_access_witness:
  "dict_class ''cpuct'' = None \<and> args ''cpuct'' = Some (PyFloat 1) \<and>
   attr_get dict_class args ''cpuct'' = Inr (PyFloat 1) \<and>
   getitem (attr_set args ''cpuct'' (PyFloat 2)) ''cpuct'' = Inr (PyFloat 2) \<and>
   dict_class ''temp'' = None \<and> args ''temp'' = None \<and>
   attr_get dict_class args ''temp'' = Inl (KeyError ''temp'') \<and>
   hasattr dict_class args ''temp'' = Inl (KeyError ''temp'')"
proof -
  have c1: "dict_class ''cpuct'' = None" and c2: "dict_class ''temp'' = None"
    by (simp_all add: dict_class_def dict_methods_def)
  have a1: "args ''cpuct'' = Some (PyFloat 1)" and a2: "args ''temp'' = None"
    by (simp_all add: args_def)
  from dotdict_attribute_access
      [where cls = dict_class and k = "''cpuct''" and d = args and v = "PyFloat 1"
        and v' = "PyFloat 2"]
    dotdict_attribute_access
      [where cls = dict_class and k = "''temp''" and d = args and v = "PyFloat 1"
        and v' = "PyFloat 2"]
    c1 c2 a1 a2
  show ?thesis by simp
qed

section \<open>Properties of the search engine\<close>

subsection \<open>Simulations keep the tree well formed\<close>

lemma tree_ok_empty: "tree_ok gm Map.empty"
  by (simp add: tree_ok_def)

lemma expand_node:
  assumes "expand gm ev s = Inr (nd, v)"
  shows "visits nd = replicate (length (legalMoves gm s 1)) 0"
  using assms
  by (auto simp add: expand_def Let_def split: sum.splits prod.splits if_splits)

lemma tree_ok_expand:
  assumes "game_ok gm" "tree_ok gm t" "expand gm ev s = Inr (nd, v)"
  shows "tree_ok gm (t(s \<mapsto> nd))"
proof -
  have "visits nd = replicate (actionSize gm) 0"
    using expand_node [OF assms(3)] assms(1) by (simp add: game_ok_def legalMoves_def)
  with assms(2) show ?thesis
    by (auto simp add: tree_ok_def)
qed

lemma tree_ok_backup:
  assumes "tree_ok gm t" "is_legal gm s 1 a"
  shows "tree_ok gm (backup t s a v)"
proof (cases "t s")
  case None
  with assms show ?thesis by (simp add: backup_def)
next
  case (Some nd)
  have "\<And>b. b < actionSize gm \<Longrightarrow> 0 < (visits nd)[a := visits nd ! a + 1] ! b
          \<Longrightarrow> is_legal gm s 1 b"
  proof -
    fix b assume b: "b < actionSize gm" "0 < (visits nd)[a := visits nd ! a + 1] ! b"
    show "is_legal gm s 1 b"
    proof (cases "b = a")
      case True
      with assms(2) show ?thesis by simp
    next
      case False
      with b have "0 < visits nd ! b" by simp
      with assms(1) Some b(1) show ?thesis by (simp add: tree_ok_def)
    qed
  qed
  with assms(1) Some show ?thesis
    by (auto simp add: backup_def tree_ok_def)
qed

lemma applyMove_legal:
  "applyMove gm s p a = Inr r \<Longrightarrow> is_legal gm s p a"
  by (simp add: applyMove_def split: if_splits)

lemma simulate_tree_ok:
  assumes "game_ok gm"
  shows "tree_ok gm t \<Longrightarrow> simulate d gm ev cfg t s = Returns (v, t') \<Longrightarrow> tree_ok gm t'"
proof (induction d arbitrary: t s v t')
  case 0
  then show ?case by simp
next
  case (Suc d)
  show ?case
  proof (cases "result gm s 1")
    case (Ended r)
    with Suc.prems show ?thesis by simp
  next
    case Ongoing
    show ?thesis
    proof (cases "t s")
      case None
      with Suc.prems Ongoing obtain nd where
        ex: "expand gm ev s = Inr (nd, v)" and t': "t' = t(s \<mapsto> nd)"
        by (auto split: sum.splits)
      show ?thesis unfolding t' by (rule tree_ok_expand [OF assms Suc.prems(1) ex])
    next
      case (Some nd)
      let ?a = "select cfg nd (legalMoves gm s 1)"
      from Suc.prems Ongoing Some obtain s' p' v1 t1 where
        am: "applyMove gm s 1 ?a = Inr (s', p')" and
        rec: "simulate d gm ev cfg t (canonicalize s' p') = Returns (v1, t1)" and
        res: "t' = backup t1 s ?a (- v1)"
        by (auto simp add: Let_def split: sum.splits outcome.splits)
      from Suc.IH [OF Suc.prems(1) rec] have "tree_ok gm t1" .
      with applyMove_legal [OF am] res show ?thesis
        by (simp add: tree_ok_backup)
    qed
  qed
qed

lemma sum_list_update_mono:
  "sum_list (xs :: nat list) \<le> sum_list (xs[a := xs ! a + 1])"
proof (cases "a < length xs")
  case True
  then show ?thesis by (simp add: sum_list_update)
next
  case False
  then have "xs[a := xs ! a + 1] = xs" by (simp add: not_less list_update_beyond)
  then show ?thesis by simp
qed

lemma sum_list_update_pos:
  "a < length xs \<Longrightarrow> 0 < sum_list ((xs :: nat list)[a := xs ! a + 1])"
  by (simp add: sum_list_update)

lemma backup_mono:
  assumes "t s0 = Some nd0"
  shows "\<exists>nd'. backup t s a v s0 = Some nd' \<and> sum_list (visits nd0) \<le> sum_list (visits nd')"
  using assms sum_list_update_mono [of "visits nd0" a]
  by (cases "t s") (auto simp add: backup_def)

lemma simulate_mono:
  "t s0 = Some nd0 \<Longrightarrow> simulate d gm ev cfg t s = Returns (v, t') \<Longrightarrow>
     \<exists>nd'. t' s0 = Some nd' \<and> sum_list (visits nd0) \<le> sum_list (visits nd')"
proof (induction d arbitrary: t s v t' nd0)
  case 0
  then show ?case by simp
next
  case (Suc d)
  show ?case
  proof (cases "result gm s 1")
    case (Ended r)
    with Suc.prems show ?thesis by simp
  next
    case Ongoing
    show ?thesis
    proof (cases "t s")
      case None
      with Suc.prems Ongoing obtain nd where "t' = t(s \<mapsto> nd)"
        by (auto split: sum.splits)
      moreover from None Suc.prems(1) have "s \<noteq> s0" by auto
      ultimately show ?thesis using Suc.prems(1) by simp
    next
      case (Some nd)
      let ?a = "select cfg nd (legalMoves gm s 1)"
      from Suc.prems Ongoing Some obtain s' p' v1 t1 where
        rec: "simulate d gm ev cfg t (canonicalize s' p') = Returns (v1, t1)" and
        res: "t' = backup t1 s ?a (- v1)"
        by (auto simp add: Let_def split: sum.splits outcome.splits)
      from Suc.IH [OF Suc.prems(1) rec] obtain nd1 where
        n1: "t1 s0 = Some nd1" "sum_list (visits nd0) \<le> sum_list (visits nd1)" by blast
      from backup_mono [where t = t1 and s = s and a = ?a and v = "- v1", OF n1(1)] obtain nd' where
        "backup t1 s ?a (- v1) s0 = Some nd'" "sum_list (visits nd1) \<le> sum_list (visits nd')"
        by blast
      with n1 res show ?thesis by auto
    qed
  qed
qed

lemma simulate_root:
  assumes "game_ok gm" "tree_ok gm t" "result gm s 1 = Ongoing"
    and "simulate d gm ev cfg t s = Returns (v, t')"
  shows "\<exists>nd'. t' s = Some nd' \<and> (t s \<noteq> None \<longrightarrow> 0 < sum_list (visits nd'))"
proof (cases d)
  case 0
  with assms show ?thesis by simp
next
  case (Suc d')
  show ?thesis
  proof (cases "t s")
    case None
    with assms Suc show ?thesis by (auto split: sum.splits)
  next
    case (Some nd)
    let ?a = "select cfg nd (legalMoves gm s 1)"
    from assms Suc Some obtain s' p' v1 t1 where
      am: "applyMove gm s 1 ?a = Inr (s', p')" and
      rec: "simulate d' gm ev cfg t (canonicalize s' p') = Returns (v1, t1)" and
      res: "t' = backup t1 s ?a (- v1)"
      by (auto simp add: Let_def split: sum.splits outcome.splits)
    from simulate_mono [OF Some rec] obtain nd1 where n1: "t1 s = Some nd1" by blast
    from simulate_tree_ok [OF assms(1,2) rec] have ok1: "tree_ok gm t1" .
    from applyMove_legal [OF am] have "?a < actionSize gm"
      using assms(1) by (simp add: is_legal_def legalMoves_def game_ok_def)
    with ok1 n1 have "?a < length (visits nd1)" by (simp add: tree_ok_def)
    from sum_list_update_pos [OF this] n1 res Some show ?thesis
      by (simp add: backup_def)
  qed
qed

subsection \<open>The root after the simulations\<close>

lemma simulations_tree_ok:
  assumes "game_ok gm"
  shows "tree_ok gm t \<Longrightarrow> simulations k d gm ev cfg t s = Returns t' \<Longrightarrow> tree_ok gm t'"
proof (induction k arbitrary: t)
  case 0
  then show ?case by simp
next
  case (Suc k)
  from Suc.prems(2) obtain v t1 where
    s1: "simulate d gm ev cfg t s = Returns (v, t1)" and
    r: "simulations k d gm ev cfg t1 s = Returns t'"
    by (auto split: outcome.splits)
  from simulate_tree_ok [OF assms Suc.prems(1) s1] have "tree_ok gm t1" .
  from Suc.IH [OF this r] show ?case .
qed

lemma simulations_mono:
  "t s0 = Some nd0 \<Longrightarrow> simulations k d gm ev cfg t s = Returns t' \<Longrightarrow>
     \<exists>nd'. t' s0 = Some nd' \<and> sum_list (visits nd0) \<le> sum_list (visits nd')"
proof (induction k arbitrary: t nd0)
  case 0
  then show ?case by simp
next
  case (Suc k)
  from Suc.prems(2) obtain v t1 where
    s1: "simulate d gm ev cfg t s = Returns (v, t1)" and
    r: "simulations k d gm ev cfg t1 s = Returns t'"
    by (auto split: outcome.splits)
  from simulate_mono [OF Suc.prems(1) s1] obtain nd1 where
    n1: "t1 s0 = Some nd1" "sum_list (visits nd0) \<le> sum_list (visits nd1)" by blast
  from Suc.IH [OF n1(1) r] obtain nd' where
    "t' s0 = Some nd'" "sum_list (visits nd1) \<le> sum_list (visits nd')" by blast
  with n1 show ?case by auto
qed

lemma simulations_root_known:
  assumes "game_ok gm" "tree_ok gm t" "result gm s 1 = Ongoing" "t s \<noteq> None" "1 \<le> k"
    and "simulations k d gm ev cfg t s = Returns t'"
  shows "\<exists>nd'. t' s = Some nd' \<and> 0 < sum_list (visits nd')"
proof -
  from assms(5) obtain k1 where k: "k = Suc k1" by (cases k) simp_all
  from assms(6) k obtain v t1 where
    s1: "simulate d gm ev cfg t s = Returns (v, t1)" and
    r: "simulations k1 d gm ev cfg t1 s = Returns t'"
    by (auto split: outcome.splits)
  from simulate_root [OF assms(1,2,3) s1] assms(4) obtain nd1 where
    n1: "t1 s = Some nd1" "0 < sum_list (visits nd1)" by blast
  from simulations_mono [OF n1(1) r] obtain nd' where
    "t' s = Some nd'" "sum_list (visits nd1) \<le> sum_list (visits nd')" by blast
  with n1(2) show ?thesis by auto
qed

lemma root_counts_ok:
  assumes "tree_ok gm t"
  shows "length (root_counts gm t s) = actionSize gm \<and>
         (\<forall>a < actionSize gm. 0 < root_counts gm t s ! a \<longrightarrow> is_legal gm s 1 a)"
  using assms by (cases "t s") (auto simp add: root_counts_def tree_ok_def)

subsection \<open>The distributions the engine returns\<close>

lemma sum_list_indicator:
  "sum_list (map (\<lambda>l. if l then c else 0) lg) = c * real (length (filter id lg))"
  by (induction lg) (simp_all add: algebra_simps)

lemma uniform_legal_sum:
  assumes "\<exists>a < length lg. lg ! a"
  shows "sum_list (uniform_legal lg) = 1"
proof -
  from assms obtain a where a: "a < length lg" "lg ! a" by blast
  have "lg ! a \<in> set lg" using a(1) by (rule nth_mem)
  moreover have "lg ! a = True" using a(2) by simp
  ultimately have "True \<in> set lg" by metis
  then have "filter id lg \<noteq> []" by (auto simp add: filter_empty_conv)
  then have pos: "0 < length (filter id lg)" by simp
  have "sum_list (uniform_legal lg) =
          1 / real (length (filter id lg)) * real (length (filter id lg))"
    unfolding uniform_legal_def by (rule sum_list_indicator)
  with pos show ?thesis by simp
qed

lemma uniform_legal_nth:
  "a < length lg \<Longrightarrow>
     uniform_legal lg ! a = (if lg ! a then 1 / real (length (filter id lg)) else 0)"
  by (simp add: uniform_legal_def)

lemma length_uniform_legal: "length (uniform_legal lg) = length lg"
  by (simp add: uniform_legal_def)

lemma one_hot_length: "length (one_hot n a) = n"
  by (simp add: one_hot_def)

lemma one_hot_nth: "j < n \<Longrightarrow> one_hot n a ! j = (if j = a then 1 else 0)"
  by (simp add: one_hot_def)

lemma one_hot_sum: "a < n \<Longrightarrow> sum_list (one_hot n a) = 1"
proof (induction n arbitrary: a)
  case 0
  then show ?case by simp
next
  case (Suc n)
  show ?case
  proof (cases a)
    case 0
    then show ?thesis by (simp add: one_hot_def sum_list_replicate)
  next
    case (Suc a')
    with Suc.prems have "a' < n" by simp
    from Suc.IH [OF this] Suc show ?thesis by (simp add: one_hot_def)
  qed
qed

lemma sum_list_divide:
  "sum_list (map (\<lambda>x. x / (c :: real)) xs) = sum_list xs / c"
  by (induction xs) (simp_all add: add_divide_distrib)

lemma sum_list_pos:
  assumes "\<forall>x \<in> set xs. (0 :: real) \<le> f x" "\<exists>x \<in> set xs. 0 < f x"
  shows "0 < sum_list (map f xs)"
  using assms
proof (induction xs)
  case Nil
  then show ?case by simp
next
  case (Cons x xs)
  have nn: "0 \<le> sum_list (map f xs)"
    using Cons.prems(1) by (auto intro!: sum_list_nonneg)
  show ?case
  proof (cases "0 < f x")
    case True
    with nn show ?thesis by (simp add: add_pos_nonneg)
  next
    case False
    with Cons.prems have "\<exists>y \<in> set xs. 0 < f y" by auto
    moreover from Cons.prems have "\<forall>y \<in> set xs. 0 \<le> f y" by simp
    ultimately have "0 < sum_list (map f xs)" using Cons.IH by blast
    moreover from Cons.prems have "0 \<le> f x" by simp
    ultimately show ?thesis by (simp add: add_nonneg_pos)
  qed
qed

lemma sum_list_nat_pos:
  "0 < sum_list (xs :: nat list) \<longleftrightarrow> (\<exists>x \<in> set xs. 0 < x)"
  by (induction xs) auto

lemma highest_spec:
  assumes "0 < sum_list counts"
  shows "highest counts < length counts \<and> 0 < counts ! highest counts \<and>
         argmax counts = Inr (highest counts)"
proof -
  from assms have ne: "counts \<noteq> []" by auto
  then obtain a where a: "argmax counts = Inr a" using argmax_returns by blast
  from argmax_spec [OF a] have sa: "a < length counts" "\<forall>j < length counts. counts ! j \<le> counts ! a"
    by simp_all
  from assms obtain x where "x \<in> set counts" "0 < x" by (auto simp add: sum_list_nat_pos)
  then obtain j where "j < length counts" "0 < counts ! j" by (auto simp add: in_set_conv_nth)
  with sa(2) have "0 < counts ! a" by (metis less_le_trans)
  with a sa(1) show ?thesis by (simp add: highest_def)
qed

subsection \<open>What a search leaves at the root\<close>

lemma visits_root_code [code]:
  "visits_root n = (if n = 0 then 0 else if n = 1 then 1 else visits_root n)"
  by (simp add: visits_root_def)

lemma score_code [code]:
  "score cfg nd lg a =
     (if lg ! a then
        Some (Qvalue nd a + cpuct cfg * prior nd ! a * visits_root (sum_list (visits nd))
                / (1 + real (visits nd ! a)))
      else None)"
  by (simp add: score_def visits_root_def)

lemma sample_game_ok: "game_ok sample_gm"
  by (simp add: game_ok_def sample_gm_def min_def)

lemma search_tree_ok:
  assumes "game_ok (mcts_game m)" "search m b = Returns t"
  shows "tree_ok (mcts_game m) t"
proof (cases "result (mcts_game m) b 1")
  case (Ended r)
  with assms(2) have "t = Map.empty" by (simp add: search_def)
  then show ?thesis by (simp add: tree_ok_empty)
next
  case Ongoing
  with assms(2) obtain nd v where
    ex: "expand (mcts_game m) (mcts_nnet m) b = Inr (nd, v)" and
    sims: "simulations (numSimulations (mcts_args m)) (mcts_depth m) (mcts_game m)
             (mcts_nnet m) (mcts_args m) [b \<mapsto> nd] b = Returns t"
    by (auto simp add: search_def split: sum.splits)
  have "tree_ok (mcts_game m) [b \<mapsto> nd]"
    by (rule tree_ok_expand [OF assms(1) tree_ok_empty ex])
  from simulations_tree_ok [OF assms(1) this sims] show ?thesis .
qed

lemma search_root_visited:
  assumes "game_ok (mcts_game m)" "result (mcts_game m) b 1 = Ongoing"
    and "1 \<le> numSimulations (mcts_args m)" "search m b = Returns t"
  shows "0 < sum_list (root_counts (mcts_game m) t b)"
proof -
  from assms(2,4) obtain nd v where
    ex: "expand (mcts_game m) (mcts_nnet m) b = Inr (nd, v)" and
    sims: "simulations (numSimulations (mcts_args m)) (mcts_depth m) (mcts_game m)
             (mcts_nnet m) (mcts_args m) [b \<mapsto> nd] b = Returns t"
    by (auto simp add: search_def split: sum.splits)
  have ok: "tree_ok (mcts_game m) [b \<mapsto> nd]"
    by (rule tree_ok_expand [OF assms(1) tree_ok_empty ex])
  have "[b \<mapsto> nd] b \<noteq> None" by simp
  from simulations_root_known [OF assms(1) ok assms(2) this assms(3) sims]
  show ?thesis by (auto simp add: root_counts_def)
qed

lemma argmax_one_hot:
  assumes "a < n"
  shows "argmax (one_hot n a) = Inr a"
proof (rule argmax_unique)
  show "a < length (one_hot n a)" using assms by (simp add: one_hot_length)
  show "\<forall>j < length (one_hot n a). one_hot n a ! j \<le> one_hot n a ! a"
    using assms by (simp add: one_hot_length one_hot_nth)
  show "\<forall>j < a. one_hot n a ! j < one_hot n a ! a"
    using assms by (simp add: one_hot_nth)
qed

lemma ai_player_search_returns:
  assumes "getActionProb w = mcts_getActionProb" "snd (ai_player w m b) = Returns x"
  shows "\<exists>t. search m b = Returns t"
  using assms
  by (cases "search m b") (simp_all add: ai_player_def mcts_getActionProb_def)

subsection \<open>The bound on the depth of a descent\<close>

text \<open>
  The bound only cuts descents off: a simulation that returns or raises within
  a bound does the same, with the same result, within every larger one, and so
  do a run of simulations and a search.
\<close>

lemma simulate_more_fuel:
  "simulate d gm ev cfg t s \<noteq> Hangs \<Longrightarrow>
     simulate (Suc d) gm ev cfg t s = simulate d gm ev cfg t s"
proof (induction d arbitrary: t s)
  case 0
  then show ?case by simp
next
  case (Suc d)
  show ?case
  proof (cases "result gm s 1")
    case (Ended r)
    then show ?thesis by simp
  next
    case Ongoing
    show ?thesis
    proof (cases "t s")
      case None
      with Ongoing show ?thesis by simp
    next
      case (Some nd)
      let ?a = "select cfg nd (legalMoves gm s 1)"
      show ?thesis
      proof (cases "applyMove gm s 1 ?a")
        case (Inl e)
        with Ongoing Some show ?thesis by (simp add: Let_def)
      next
        case (Inr x)
        obtain s' p' where x: "x = (s', p')" by (cases x)
        have "simulate d gm ev cfg t (canonicalize s' p') \<noteq> Hangs"
          using Suc.prems Ongoing Some Inr x by (auto simp add: Let_def)
        from Suc.IH [OF this]
        have "simulate (Suc d) gm ev cfg t (canonicalize s' p') =
                simulate d gm ev cfg t (canonicalize s' p')" .
        then show ?thesis
          using Ongoing Some Inr x
          by (simp add: Let_def del: simulate.simps
              add: simulate.simps(2) [of "Suc d" gm ev cfg t s] simulate.simps(2) [of d gm ev cfg t s])
      qed
    qed
  qed
qed

lemma simulate_enough_fuel:
  "simulate d gm ev cfg t s \<noteq> Hangs \<Longrightarrow> d \<le> d' \<Longrightarrow>
     simulate d' gm ev cfg t s = simulate d gm ev cfg t s"
proof (induction d' arbitrary: )
  case 0
  then show ?case by simp
next
  case (Suc d')
  show ?case
  proof (cases "d = Suc d'")
    case True
    then show ?thesis by simp
  next
    case False
    with Suc.prems have le: "d \<le> d'" by simp
    from Suc.IH [OF Suc.prems(1) le] have eq: "simulate d' gm ev cfg t s = simulate d gm ev cfg t s" .
    with Suc.prems(1) have "simulate d' gm ev cfg t s \<noteq> Hangs" by simp
    from simulate_more_fuel [OF this] eq show ?thesis by simp
  qed
qed

lemma simulations_enough_fuel:
  "simulations k d gm ev cfg t s \<noteq> Hangs \<Longrightarrow> d \<le> d' \<Longrightarrow>
     simulations k d' gm ev cfg t s = simulations k d gm ev cfg t s"
proof (induction k arbitrary: t)
  case 0
  then show ?case by simp
next
  case (Suc k)
  from Suc.prems(1) have nh: "simulate d gm ev cfg t s \<noteq> Hangs"
    by (auto split: outcome.splits)
  from simulate_enough_fuel [OF nh Suc.prems(2)]
  have eq: "simulate d' gm ev cfg t s = simulate d gm ev cfg t s" .
  show ?case
  proof (cases "simulate d gm ev cfg t s")
    case (Returns x)
    obtain v t1 where x: "x = (v, t1)" by (cases x)
    from Suc.prems(1) Returns x have "simulations k d gm ev cfg t1 s \<noteq> Hangs" by simp
    from Suc.IH [OF this Suc.prems(2)] eq Returns x show ?thesis by simp
  next
    case (Raises e)
    with eq show ?thesis by simp
  next
    case Hangs
    with nh show ?thesis by simp
  qed
qed

lemma search_enough_fuel:
  assumes "search m b \<noteq> Hangs" "mcts_depth m \<le> d'"
  shows "search (m\<lparr>mcts_depth := d'\<rparr>) b = search m b"
proof (cases "result (mcts_game m) b 1")
  case (Ended r)
  then show ?thesis by (simp add: search_def)
next
  case Ongoing
  show ?thesis
  proof (cases "expand (mcts_game m) (mcts_nnet m) b")
    case (Inl e)
    with Ongoing show ?thesis by (simp add: search_def)
  next
    case (Inr x)
    obtain nd v where x: "x = (nd, v)" by (cases x)
    from assms(1) Ongoing Inr x
    have "simulations (numSimulations (mcts_args m)) (mcts_depth m) (mcts_game m)
            (mcts_nnet m) (mcts_args m) [b \<mapsto> nd] b \<noteq> Hangs"
      by (simp add: search_def)
    from simulations_enough_fuel [OF this assms(2)] Ongoing Inr x show ?thesis
      by (simp add: search_def)
  qed
qed

subsection \<open>Selection\<close>

text \<open>
  Where some action is legal the selection rule picks a legal one, so applying
  the selected action does not fail.
\<close>

lemma select_legal:
  assumes "\<exists>j < length lg. lg ! j"
  shows "select cfg nd lg < length lg \<and> lg ! select cfg nd lg"
proof -
  let ?scores = "map (score cfg nd lg) [0..<length lg]"
  from assms obtain j where j: "j < length lg" "lg ! j" by blast
  then have ne: "?scores \<noteq> []" by auto
  then obtain a where a: "argmax ?scores = Inr a" using argmax_returns by blast
  from argmax_spec [OF a] have "a < length ?scores" by blast
  then have al: "a < length lg" by simp
  have len: "length ?scores = length lg" by simp
  from argmax_spec [OF a] have "\<forall>i < length ?scores. ?scores ! i \<le> ?scores ! a" by blast
  with j(1) len have "?scores ! j \<le> ?scores ! a" by metis
  moreover have "?scores ! j = score cfg nd lg j" using j(1) by simp
  moreover have "?scores ! a = score cfg nd lg a" using al by simp
  ultimately have le: "score cfg nd lg j \<le> score cfg nd lg a" by simp
  from j have "score cfg nd lg j \<noteq> None" by (simp add: score_def)
  with le have "score cfg nd lg a \<noteq> None"
    by (cases "score cfg nd lg j"; cases "score cfg nd lg a") simp_all
  then have "lg ! a" by (simp add: score_def split: if_splits)
  with a al show ?thesis by (simp add: select_def)
qed

lemma select_applies:
  assumes "\<exists>a. is_legal gm s 1 a"
  shows "\<exists>r. applyMove gm s 1 (select cfg nd (legalMoves gm s 1)) = Inr r"
proof -
  from assms have "\<exists>j < length (legalMoves gm s 1). legalMoves gm s 1 ! j"
    by (auto simp add: is_legal_def)
  from select_legal [OF this, of cfg nd] show ?thesis
    by (simp add: applyMove_def is_legal_def)
qed

subsection \<open>The search returns\<close>

text \<open>
  On a game that can be played out, a simulation from a state of the shape
  returns when the bound on the depth exceeds the rank of the state, and so do
  any number of simulations and the search.
\<close>

lemma simulate_returns:
  assumes "playable gm ev shape rank"
  shows "shape s \<Longrightarrow> rank s < d \<Longrightarrow> \<exists>v t'. simulate d gm ev cfg t s = Returns (v, t')"
proof (induction d arbitrary: s t)
  case 0
  then show ?case by simp
next
  case (Suc d)
  show ?case
  proof (cases "result gm s 1")
    case (Ended r)
    then show ?thesis by simp
  next
    case Ongoing
    from assms Suc.prems(1) Ongoing have
      ex: "\<exists>nd v. expand gm ev s = Inr (nd, v)" and
      lg: "\<exists>a. is_legal gm s 1 a" and
      step: "\<And>a s' p'. is_legal gm s 1 a \<Longrightarrow> gm_move gm s 1 a = (s', p') \<Longrightarrow>
               shape (canonicalize s' p') \<and> rank (canonicalize s' p') < rank s"
      unfolding playable_def by blast+
    show ?thesis
    proof (cases "t s")
      case None
      with Ongoing ex show ?thesis by auto
    next
      case (Some nd)
      let ?a = "select cfg nd (legalMoves gm s 1)"
      from select_applies [OF lg, of cfg nd] obtain x where am: "applyMove gm s 1 ?a = Inr x"
        by blast
      obtain s' p' where x: "x = (s', p')" by (cases x)
      from am x have la: "is_legal gm s 1 ?a" and mv: "gm_move gm s 1 ?a = (s', p')"
        by (auto simp add: applyMove_def split: if_splits)
      from step [OF la mv] Suc.prems(2) have
        "shape (canonicalize s' p')" "rank (canonicalize s' p') < d" by auto
      from Suc.IH [OF this, of t] obtain v t' where
        "simulate d gm ev cfg t (canonicalize s' p') = Returns (v, t')" by blast
      with Ongoing Some am x show ?thesis by (simp add: Let_def)
    qed
  qed
qed

lemma simulations_returns:
  assumes "playable gm ev shape rank" "shape s" "rank s < d"
  shows "\<exists>t'. simulations k d gm ev cfg t s = Returns t'"
proof (induction k arbitrary: t)
  case 0
  then show ?case by simp
next
  case (Suc k)
  from simulate_returns [OF assms, of cfg t] obtain v t1 where
    "simulate d gm ev cfg t s = Returns (v, t1)" by blast
  with Suc.IH [of t1] show ?case by simp
qed

lemma search_returns:
  assumes "playable (mcts_game m) (mcts_nnet m) shape rank" "shape b" "rank b < mcts_depth m"
  shows "\<exists>t. search m b = Returns t"
proof (cases "result (mcts_game m) b 1")
  case (Ended r)
  then show ?thesis by (simp add: search_def)
next
  case Ongoing
  with assms(1,2) obtain nd v where ex: "expand (mcts_game m) (mcts_nnet m) b = Inr (nd, v)"
    unfolding playable_def by blast
  from simulations_returns [OF assms, of "numSimulations (mcts_args m)" "mcts_args m" "[b \<mapsto> nd]"]
  obtain t where "simulations (numSimulations (mcts_args m)) (mcts_depth m) (mcts_game m)
      (mcts_nnet m) (mcts_args m) [b \<mapsto> nd] b = Returns t" by blast
  with Ongoing ex show ?thesis by (simp add: search_def)
qed

subsection \<open>The sample game can be played out\<close>

lemma concat_nth_rows:
  assumes "\<forall>r \<in> set b. length r = n" "a < n * length b"
  shows "concat b ! a = b ! (a div n) ! (a mod n)"
  using assms
proof (induction b arbitrary: a)
  case Nil
  then show ?case by simp
next
  case (Cons r b)
  then have lr: "length r = n" by simp
  show ?case
  proof (cases "a < n")
    case True
    with lr show ?thesis by (simp add: nth_append)
  next
    case False
    then have ge: "n \<le> a" by simp
    from Cons.prems(2) False have n0: "0 < n" by (cases n) simp_all
    from Cons.prems(2) ge have lt: "a - n < n * length b" by (simp add: algebra_simps)
    from Cons.prems(1) have rows: "\<forall>r \<in> set b. length r = n" by simp
    from Cons.IH [OF rows lt] have IH: "concat b ! (a - n) = b ! ((a - n) div n) ! ((a - n) mod n)" .
    from ge n0 have d: "a div n = Suc ((a - n) div n)"
      by (simp add: le_div_geq)
    from ge have m: "a mod n = (a - n) mod n" by (simp add: le_mod_geq)
    from False lr IH d m show ?thesis by (simp add: nth_append)
  qed
qed

lemma sample_shape_concat:
  assumes "sample_shape b"
  shows "length (concat b) = 64"
proof -
  from assms have "map length b = map (\<lambda>r. 8) b"
    by (simp add: sample_shape_def)
  also have "\<dots> = replicate (length b) 8"
    by (rule map_replicate_const)
  finally show ?thesis
    using assms by (simp add: length_concat sum_list_replicate sample_shape_def)
qed

lemma empty_cells_update:
  assumes "j < length r" "r ! j = 0" "v \<noteq> 0"
  shows "Suc (empty_cells (r[j := v])) = empty_cells r"
proof -
  have r: "r = take j r @ r ! j # drop (Suc j) r"
    using assms(1) by (rule id_take_nth_drop)
  have u: "r[j := v] = take j r @ v # drop (Suc j) r"
    using assms(1) by (rule upd_conv_take_nth_drop)
  have "empty_cells r = empty_cells (take j r @ r ! j # drop (Suc j) r)"
    using r by simp
  also have "\<dots> = Suc (empty_cells (take j r @ v # drop (Suc j) r))"
    using assms(2,3) by (simp add: empty_cells_def)
  finally show ?thesis using u by simp
qed

lemma sample_rank_put:
  assumes "i < length b" "j < length (b ! i)" "b ! i ! j = 0" "v \<noteq> 0"
  shows "sample_rank (b[i := (b ! i)[j := v]]) < sample_rank b"
proof -
  let ?xs = "map empty_cells b"
  from empty_cells_update [OF assms(2,3,4)]
  have e: "Suc (empty_cells ((b ! i)[j := v])) = empty_cells (b ! i)" .
  have "sample_rank (b[i := (b ! i)[j := v]]) = sum_list (?xs[i := empty_cells ((b ! i)[j := v])])"
    by (simp add: sample_rank_def map_update)
  also have "\<dots> = sum_list ?xs + empty_cells ((b ! i)[j := v]) - ?xs ! i"
    using assms(1) by (simp add: sum_list_update)
  finally have eq: "sample_rank (b[i := (b ! i)[j := v]]) =
      sum_list ?xs + empty_cells ((b ! i)[j := v]) - empty_cells (b ! i)"
    using assms(1) by simp
  have "empty_cells (b ! i) \<in> set ?xs" using assms(1) by simp
  then have "empty_cells (b ! i) \<le> sum_list ?xs" by (simp add: member_le_sum_list)
  with eq e show ?thesis by (simp add: sample_rank_def)
qed

lemma sample_rank_canonicalize:
  "p \<noteq> 0 \<Longrightarrow> sample_rank (canonicalize b p) = sample_rank b"
proof -
  assume p: "p \<noteq> 0"
  have "\<And>r. empty_cells (map (\<lambda>x. x * p) r) = empty_cells r"
    using p by (simp add: empty_cells_def filter_map comp_def)
  then show ?thesis by (simp add: sample_rank_def canonicalize_def comp_def)
qed

lemma sample_shape_canonicalize:
  "sample_shape b \<Longrightarrow> sample_shape (canonicalize b p)"
  by (auto simp add: sample_shape_def canonicalize_def)

lemma sample_shape_put:
  assumes "sample_shape b"
  shows "sample_shape (put b a v)"
proof (cases "a div 8 < length b")
  case False
  then have "put b a v = b" by (simp add: put_def not_less list_update_beyond)
  with assms show ?thesis by simp
next
  case True
  let ?row = "(b ! (a div 8))[a mod 8 := v]"
  from True have "b ! (a div 8) \<in> set b" by simp
  with assms have lrow: "length ?row = 8" by (simp add: sample_shape_def)
  have "set (b[a div 8 := ?row]) \<subseteq> insert ?row (set b)"
    by (rule set_update_subset_insert)
  with assms lrow have "\<forall>r \<in> set (b[a div 8 := ?row]). length r = 8"
    by (auto simp add: sample_shape_def)
  with assms show ?thesis by (simp add: sample_shape_def put_def)
qed

lemma sample_legal_cell:
  assumes "sample_shape s"
  shows "is_legal sample_gm s p a \<longleftrightarrow> a < 64 \<and> s ! (a div 8) ! (a mod 8) = 0"
proof -
  from sample_shape_concat [OF assms] have len: "length (concat s) = 64" .
  then have tk: "take 64 (concat s @ replicate 64 1) = concat s" by simp
  have nth: "a < 64 \<Longrightarrow> concat s ! a = s ! (a div 8) ! (a mod 8)"
  proof -
    assume "a < 64"
    with assms have "a < 8 * length s" by (simp add: sample_shape_def)
    moreover from assms have "\<forall>r \<in> set s. length r = 8" by (simp add: sample_shape_def)
    ultimately show ?thesis by (rule concat_nth_rows [rotated])
  qed
  show ?thesis
    using len nth
    by (auto simp add: is_legal_def legalMoves_def sample_gm_def tk)
qed

lemma sample_expand_returns:
  "\<exists>nd v. expand sample_gm uniform_evaluator s = Inr (nd, v)"
proof -
  let ?lg = "legalMoves sample_gm s 1"
  let ?policy = "replicate 64 (1 / 64 :: real)"
  let ?masked = "map (\<lambda>(l, p). if l then p else 0) (zip ?lg ?policy)"
  have len: "length ?lg = 64" by (simp add: legalMoves_def sample_gm_def min_def)
  have "\<And>x. x \<in> set ?masked \<Longrightarrow> 0 \<le> x"
    by (auto simp add: set_zip)
  then have "0 \<le> sum_list ?masked" by (rule sum_list_nonneg)
  then have "\<not> sum_list ?masked < 0" by simp
  with len show ?thesis
    by (simp add: expand_def uniform_evaluator_def Let_def)
qed

lemma sample_ongoing_cell:
  assumes "sample_shape s" "result sample_gm s 1 = Ongoing"
  shows "s ! 0 ! 1 = 0"
proof -
  from assms(1) obtain r0 rest where s: "s = r0 # rest" and "length r0 = 8"
    by (cases s) (auto simp add: sample_shape_def)
  then obtain x0 x1 r where r0: "r0 = x0 # x1 # r"
    by (cases r0; cases "tl r0") auto
  from assms(2) s r0 show ?thesis
    by (simp add: result_def sample_gm_def sample_judge_def split: if_splits)
qed

lemma sample_playable:
  "playable sample_gm uniform_evaluator sample_shape sample_rank"
  unfolding playable_def
proof (intro allI impI conjI)
  fix s assume a: "sample_shape s \<and> result sample_gm s 1 = Ongoing"
  show "\<exists>nd v. expand sample_gm uniform_evaluator s = Inr (nd, v)"
    by (rule sample_expand_returns)
  from a sample_ongoing_cell [of s] have "s ! (1 div 8) ! (1 mod 8) = 0" by simp
  with a sample_legal_cell [of s 1 1] have "is_legal sample_gm s 1 1" by simp
  then show "\<exists>a. is_legal sample_gm s 1 a" by blast
next
  fix s a s' p'
  assume sh: "sample_shape s \<and> result sample_gm s 1 = Ongoing"
    and lg: "is_legal sample_gm s 1 a \<and> gm_move sample_gm s 1 a = (s', p')"
  from lg have s': "s' = put s a 1" and p': "p' = - 1" by (simp_all add: sample_gm_def)
  from sh have shape: "sample_shape s" by simp
  from lg sample_legal_cell [OF shape, of 1 a] have a: "a < 64" "s ! (a div 8) ! (a mod 8) = 0"
    by simp_all
  from sample_shape_put [OF shape] sample_shape_canonicalize s'
  show "sample_shape (canonicalize s' p')" by simp
  from a(1) shape have i: "a div 8 < length s" by (simp add: sample_shape_def)
  then have "s ! (a div 8) \<in> set s" by simp
  with shape have j: "a mod 8 < length (s ! (a div 8))" by (simp add: sample_shape_def)
  have "sample_rank (s[a div 8 := (s ! (a div 8))[a mod 8 := 1]]) < sample_rank s"
    by (rule sample_rank_put [OF i j a(2)]) simp
  then show "sample_rank (canonicalize s' p') < sample_rank s"
    using s' p' by (simp add: sample_rank_canonicalize put_def)
qed

lemma sample_rank_bound:
  assumes "sample_shape s"
  shows "sample_rank s \<le> 64"
proof -
  have "sample_rank s \<le> sum_list (map length s)"
    unfolding sample_rank_def empty_cells_def
    by (rule sum_list_mono) simp
  also have "\<dots> = length (concat s)" by (simp add: length_concat)
  finally show ?thesis using sample_shape_concat [OF assms] by simp
qed

lemma sample_search_returns:
  assumes "sample_shape b"
  shows "\<exists>t. search sample_mcts b = Returns t"
proof -
  have p: "playable (mcts_game sample_mcts) (mcts_nnet sample_mcts) sample_shape sample_rank"
    using sample_playable by (simp add: sample_mcts_def)
  from sample_rank_bound [OF assms] have "sample_rank b < mcts_depth sample_mcts"
    by (simp add: sample_mcts_def)
  from search_returns [OF p assms this] show ?thesis .
qed

subsection \<open>One decision of the sample engine\<close>

text \<open>
  The first search from the empty board: the first simulation tries action \<open>0\<close>
  and expands the state behind it, of value \<open>0\<close>; the second tries action \<open>1\<close>
  and wins. Both actions have one visit, so the lower index is chosen.
\<close>

lemma sample_first_search:
  "map_option (\<lambda>t. t sample_init) (returned (search sample_mcts sample_init)) =
     Some (Some (sample_node 1))"
  by code_simp

lemma argmax_one_hot_64: "a < 64 \<Longrightarrow> argmax (one_hot 64 a) = Inr a"
  using argmax_one_hot [of a 64] by simp

lemma sample_ai_action:
  "map_option fst (returned (snd (ai_player engine_world sample_mcts sample_init))) = Some 0"
proof -
  from sample_first_search obtain t where
    s: "search sample_mcts sample_init = Returns t" and
    t: "t sample_init = Some (sample_node 1)"
    by (cases "search sample_mcts sample_init") auto
  have h: "highest (visits (sample_node 1)) = 0" by code_simp
  have "mcts_getActionProb sample_mcts sample_init 0 = Returns (one_hot 64 0, sample_mcts)"
    using s t h
    by (simp add: mcts_getActionProb_def action_probs_def root_counts_def sample_node_def)
  then have "snd (ai_player engine_world sample_mcts sample_init) = Returns (0, sample_mcts)"
    by (simp add: ai_player_def engine_world_def argmax_one_hot_64)
  then show ?thesis by simp
qed

lemma sample_ai_returns:
  "\<exists>m'. snd (ai_player engine_world sample_mcts sample_init) = Returns (0, m')"
  using sample_ai_action
  by (cases "snd (ai_player engine_world sample_mcts sample_init)") auto

lemma sample_engine_facts:
  "getActionProb engine_world = mcts_getActionProb"
  "game_ok (mcts_game sample_mcts)"
  "actionSize (mcts_game sample_mcts) = 64"
  "numSimulations (mcts_args sample_mcts) = 2"
  "mcts_game sample_mcts = sample_gm"
  using sample_game_ok by (simp_all add: engine_world_def sample_mcts_def sample_gm_def)

subsection \<open>The action \<^verbatim>\<open>ai_player\<close> returns\<close>

text \<open>
  C3. With the engine of the specification behind \<^verbatim>\<open>mcts.getActionProb\<close>: on
  every board \<^verbatim>\<open>ai_player\<close> calls \<^verbatim>\<open>getActionProb\<close> with temperature \<open>0\<close>;
  it fails or hangs exactly as the search does, and when the search returns it
  receives the one-hot distribution over the whole action space on an action
  \<open>a\<close> and returns \<open>a\<close>, where no action has more visits at the root than
  \<open>a\<close> and every action with a lower index has fewer.
\<close>

theorem ai_player_highest_visit_count:
  assumes "getActionProb w = mcts_getActionProb"
    and "game_ok (mcts_game m)"
    and "0 < actionSize (mcts_game m)"
  shows "ai_player w m b =
           ([AiPlayer b, GetActionProb b 0],
            case search m b of
              Returns t \<Rightarrow> Returns (highest (root_counts (mcts_game m) t b), m)
            | Raises e \<Rightarrow> Raises e
            | Hangs \<Rightarrow> Hangs) \<and>
         (\<forall>t. search m b = Returns t \<longrightarrow>
            (\<exists>a. a = highest (root_counts (mcts_game m) t b) \<and>
               getActionProb w m b 0 = Returns (one_hot (actionSize (mcts_game m)) a, m) \<and>
               a < actionSize (mcts_game m) \<and>
               (\<forall>j < actionSize (mcts_game m).
                  root_counts (mcts_game m) t b ! j \<le> root_counts (mcts_game m) t b ! a) \<and>
               (\<forall>j < a. root_counts (mcts_game m) t b ! j < root_counts (mcts_game m) t b ! a)))"
proof -
  let ?gm = "mcts_game m"
  have ret: "\<exists>a. a = highest (root_counts ?gm t b) \<and>
               getActionProb w m b 0 = Returns (one_hot (actionSize ?gm) a, m) \<and>
               a < actionSize ?gm \<and>
               (\<forall>j < actionSize ?gm. root_counts ?gm t b ! j \<le> root_counts ?gm t b ! a) \<and>
               (\<forall>j < a. root_counts ?gm t b ! j < root_counts ?gm t b ! a) \<and>
               snd (ai_player w m b) = Returns (a, m)"
    if t: "search m b = Returns t" for t
  proof -
    let ?counts = "root_counts ?gm t b"
    from search_tree_ok [OF assms(2) t] have ok: "tree_ok ?gm t" .
    from root_counts_ok [OF ok, of b] have len: "length ?counts = actionSize ?gm" by simp
    with assms(3) have "?counts \<noteq> []" by auto
    then obtain a where a: "argmax ?counts = Inr a" using argmax_returns by blast
    from argmax_spec [OF a] len have sa: "a < actionSize ?gm"
      "\<forall>j < actionSize ?gm. ?counts ! j \<le> ?counts ! a" "\<forall>j < a. ?counts ! j < ?counts ! a"
      by simp_all
    have h: "highest ?counts = a" using a by (simp add: highest_def)
    have gp: "getActionProb w m b 0 = Returns (one_hot (actionSize ?gm) a, m)"
      using assms(1) t h len by (simp add: mcts_getActionProb_def action_probs_def)
    have "snd (ai_player w m b) = Returns (a, m)"
      using gp argmax_one_hot [OF sa(1)] by (simp add: ai_player_def)
    with gp sa h show ?thesis by blast
  qed
  have "snd (ai_player w m b) =
          (case search m b of
             Returns t \<Rightarrow> Returns (highest (root_counts ?gm t b), m)
           | Raises e \<Rightarrow> Raises e
           | Hangs \<Rightarrow> Hangs)"
  proof (cases "search m b")
    case (Returns t)
    from ret [OF Returns] Returns show ?thesis by auto
  next
    case (Raises e)
    with assms(1) show ?thesis by (simp add: ai_player_def mcts_getActionProb_def)
  next
    case Hangs
    with assms(1) show ?thesis by (simp add: ai_player_def mcts_getActionProb_def)
  qed
  moreover have "fst (ai_player w m b) = [AiPlayer b, GetActionProb b 0]"
    by (simp add: ai_player_def)
  ultimately have first: "ai_player w m b =
           ([AiPlayer b, GetActionProb b 0],
            case search m b of
              Returns t \<Rightarrow> Returns (highest (root_counts ?gm t b), m)
            | Raises e \<Rightarrow> Raises e
            | Hangs \<Rightarrow> Hangs)"
    by (metis prod.collapse)
  from ret have "\<forall>t. search m b = Returns t \<longrightarrow>
            (\<exists>a. a = highest (root_counts ?gm t b) \<and>
               getActionProb w m b 0 = Returns (one_hot (actionSize ?gm) a, m) \<and>
               a < actionSize ?gm \<and>
               (\<forall>j < actionSize ?gm. root_counts ?gm t b ! j \<le> root_counts ?gm t b ! a) \<and>
               (\<forall>j < a. root_counts ?gm t b ! j < root_counts ?gm t b ! a))"
    by blast
  with first show ?thesis by blast
qed

theorem ai_player_highest_visit_count_witness:
  "getActionProb engine_world = mcts_getActionProb \<and>
   game_ok (mcts_game sample_mcts) \<and>
   0 < actionSize (mcts_game sample_mcts) \<and>
   ai_player engine_world sample_mcts sample_init =
     ([AiPlayer sample_init, GetActionProb sample_init 0], Returns (0, sample_mcts)) \<and>
   getActionProb engine_world sample_mcts sample_init 0 = Returns (one_hot 64 0, sample_mcts)"
proof -
  note f = sample_engine_facts
  have n: "0 < actionSize (mcts_game sample_mcts)" using f(3) by simp
  from sample_ai_returns obtain m' where
    r: "snd (ai_player engine_world sample_mcts sample_init) = Returns (0, m')" by blast
  from ai_player_search_returns [OF f(1) r] obtain t where
    t: "search sample_mcts sample_init = Returns t" by blast
  note inst = ai_player_highest_visit_count [OF f(1) f(2) n, of sample_init]
  from inst t obtain a where
    a: "a = highest (root_counts (mcts_game sample_mcts) t sample_init)"
       "getActionProb engine_world sample_mcts sample_init 0 =
          Returns (one_hot (actionSize (mcts_game sample_mcts)) a, sample_mcts)"
    by blast
  from inst t a(1) have ai: "ai_player engine_world sample_mcts sample_init =
          ([AiPlayer sample_init, GetActionProb sample_init 0], Returns (a, sample_mcts))"
    by simp
  from ai r have "a = 0" by simp
  with ai a(2) f(1,2,3) n show ?thesis by simp
qed

subsection \<open>Two runs on the same board\<close>





subsection \<open>The sample game on an engine that keeps its tree\<close>


















section \<open>The distribution and the legal moves\<close>

lemma sum_one_argmax_positive:
  assumes "sum_list (xs :: real list) = 1" "argmax xs = Inr a"
  shows "0 < xs ! a"
proof (rule ccontr)
  assume "\<not> 0 < xs ! a"
  then have le: "xs ! a \<le> 0" by simp
  from argmax_spec [OF assms(2)] have "\<forall>j < length xs. xs ! j \<le> xs ! a" by simp
  with le have "\<forall>j < length xs. xs ! j \<le> 0" by (meson order_trans)
  then have "\<And>x. x \<in> set xs \<Longrightarrow> x \<le> 0" by (auto simp add: in_set_conv_nth)
  then have "sum_list xs \<le> 0" by (rule sum_list_nonpos)
  with assms(1) show False by simp
qed

lemma action_probs_distribution:
  assumes "length lg = n" "length counts = n" "0 < sum_list counts"
    and "\<forall>a < n. 0 < counts ! a \<longrightarrow> lg ! a"
  shows "length (action_probs lg counts temp) = n \<and>
         sum_list (action_probs lg counts temp) = 1 \<and>
         (\<forall>a < n. \<not> lg ! a \<longrightarrow> action_probs lg counts temp ! a = 0)"
proof (cases "temp = 0")
  case True
  from highest_spec [OF assms(3)] have h: "highest counts < n" "0 < counts ! highest counts"
    using assms(2) by simp_all
  with assms(4) have lh: "lg ! highest counts" by simp
  have "\<forall>a < n. \<not> lg ! a \<longrightarrow> one_hot n (highest counts) ! a = 0"
    using lh by (auto simp add: one_hot_nth)
  with True h(1) assms(2) show ?thesis
    by (simp add: action_probs_def one_hot_length one_hot_sum)
next
  case False
  let ?f = "\<lambda>c. real c powr (1 / temp)"
  let ?xs = "map ?f counts"
  let ?S = "sum_list ?xs"
  from assms(3) obtain x where x: "x \<in> set counts" "0 < x" by (auto simp add: sum_list_nat_pos)
  have nonneg: "\<forall>c \<in> set counts. 0 \<le> ?f c" by simp
  have "\<exists>c \<in> set counts. 0 < ?f c" using x by (intro bexI [of _ x]) simp_all
  with nonneg have S: "0 < ?S" by (rule sum_list_pos)
  have ap: "action_probs lg counts temp = map (\<lambda>x. x / ?S) ?xs"
    using False x by (auto simp add: action_probs_def Let_def)
  have len: "length (action_probs lg counts temp) = n" using ap assms(2) by simp
  have "sum_list (map (\<lambda>x. x / ?S) ?xs) = ?S / ?S" by (rule sum_list_divide)
  with S ap have sum: "sum_list (action_probs lg counts temp) = 1" by simp
  have zero: "\<forall>a < n. \<not> lg ! a \<longrightarrow> action_probs lg counts temp ! a = 0"
  proof (intro allI impI)
    fix a assume a: "a < n" "\<not> lg ! a"
    with assms(4) have "counts ! a = 0" by auto
    with a(1) assms(2) ap show "action_probs lg counts temp ! a = 0" by simp
  qed
  from len sum zero show ?thesis by simp
qed

text \<open>
  On a board with no empty cell no action is legal and the game is over: the
  search visits nothing, the distribution at temperature \<open>0\<close> is one-hot on
  action \<open>0\<close>, and \<^verbatim>\<open>ai_player\<close> returns that illegal action.
\<close>

theorem full_board_illegal_action:
  "map_option fst (returned (mcts_getActionProb sample_mcts sample_full 0)) =
     Some (one_hot 64 0) \<and>
   one_hot 64 0 ! 0 = 1 \<and>
   is_legal sample_gm sample_full 1 0 = False \<and>
   filter id (legalMoves sample_gm sample_full 1) = [] \<and>
   map_option fst (returned (snd (ai_player engine_world sample_mcts sample_full))) = Some 0"
  by code_simp

text \<open>
  C6, for the root states at which the game is ongoing. With a game whose vector
  of legal moves has the length of the action space and a budget of at least one
  simulation, a distribution \<^verbatim>\<open>getActionProb\<close> returns at such a root has one
  entry per action, sums to \<open>1\<close> and is \<open>0\<close> at every illegal action; the index
  of its first maximum is a legal action, and at temperature \<open>0\<close> it is the
  action \<^verbatim>\<open>ai_player\<close> returns.
\<close>

theorem getActionProb_distribution:
  assumes "game_ok (mcts_game m)"
    and "result (mcts_game m) b 1 = Ongoing"
    and "1 \<le> numSimulations (mcts_args m)"
    and "mcts_getActionProb m b temp = Returns (probs, m')"
  shows "length probs = actionSize (mcts_game m) \<and>
         sum_list probs = 1 \<and>
         (\<forall>a < actionSize (mcts_game m). \<not> is_legal (mcts_game m) b 1 a \<longrightarrow> probs ! a = 0) \<and>
         (\<exists>a. argmax probs = Inr a \<and> is_legal (mcts_game m) b 1 a \<and>
              (temp = 0 \<longrightarrow> (\<forall>w. getActionProb w = mcts_getActionProb \<longrightarrow>
                  snd (ai_player w m b) = Returns (a, m))))"
proof -
  let ?gm = "mcts_game m"
  let ?lg = "legalMoves ?gm b 1"
  from assms(4) obtain t where t: "search m b = Returns t"
    by (cases "search m b") (simp_all add: mcts_getActionProb_def)
  from assms(4) t have probs: "probs = action_probs ?lg (root_counts ?gm t b) temp"
    and m': "m' = m"
    by (auto simp add: mcts_getActionProb_def)
  let ?counts = "root_counts ?gm t b"
  from search_tree_ok [OF assms(1) t] have ok: "tree_ok ?gm t" .
  from root_counts_ok [OF ok, of b] have len: "length ?counts = actionSize ?gm"
    and vis: "\<forall>a < actionSize ?gm. 0 < ?counts ! a \<longrightarrow> is_legal ?gm b 1 a" by simp_all
  have llg: "length ?lg = actionSize ?gm"
    using assms(1) by (simp add: game_ok_def legalMoves_def)
  from vis have vis': "\<forall>a < actionSize ?gm. 0 < ?counts ! a \<longrightarrow> ?lg ! a"
    by (simp add: is_legal_def)
  from search_root_visited [OF assms(1,2,3) t] have pos: "0 < sum_list ?counts" .
  from action_probs_distribution [OF llg len pos vis', of temp] probs
  have d: "length probs = actionSize ?gm" "sum_list probs = 1"
    "\<forall>a < actionSize ?gm. \<not> ?lg ! a \<longrightarrow> probs ! a = 0" by simp_all
  from d(2) have "probs \<noteq> []" by auto
  then obtain a where a: "argmax probs = Inr a" using argmax_returns by blast
  from argmax_spec [OF a] d(1) have an: "a < actionSize ?gm" by simp
  from sum_one_argmax_positive [OF d(2) a] have "0 < probs ! a" .
  with d(3) an have "?lg ! a" by auto
  with an llg have legal: "is_legal ?gm b 1 a" by (simp add: is_legal_def)
  have zero: "\<forall>a < actionSize ?gm. \<not> is_legal ?gm b 1 a \<longrightarrow> probs ! a = 0"
    using d(3) llg by (simp add: is_legal_def)
  have drv: "temp = 0 \<longrightarrow> (\<forall>w. getActionProb w = mcts_getActionProb \<longrightarrow>
                  snd (ai_player w m b) = Returns (a, m))"
    using assms(4) a m' by (auto simp add: ai_player_def)
  from d(1,2) zero a legal drv show ?thesis by blast
qed

theorem getActionProb_distribution_witness:
  "game_ok (mcts_game sample_mcts) \<and>
   result (mcts_game sample_mcts) sample_init 1 = Ongoing \<and>
   1 \<le> numSimulations (mcts_args sample_mcts) \<and>
   (\<exists>probs. mcts_getActionProb sample_mcts sample_init 0 = Returns (probs, sample_mcts) \<and>
      length probs = 64 \<and> sum_list probs = 1 \<and> argmax probs = Inr 0 \<and>
      is_legal sample_gm sample_init 1 0) \<and>
   snd (ai_player engine_world sample_mcts sample_init) = Returns (0, sample_mcts)"
proof -
  note f = sample_engine_facts
  have on: "result (mcts_game sample_mcts) sample_init 1 = Ongoing"
    unfolding f(5) by code_simp
  have n: "1 \<le> numSimulations (mcts_args sample_mcts)" using f(4) by simp
  from sample_ai_returns obtain m' where
    r: "snd (ai_player engine_world sample_mcts sample_init) = Returns (0, m')" by blast
  then obtain probs where
    g: "mcts_getActionProb sample_mcts sample_init 0 = Returns (probs, m')"
    using f(1) by (auto simp add: ai_player_def split: outcome.splits sum.splits)
  from getActionProb_distribution [OF f(2) on n g] f(3,5) obtain a where
    d: "length probs = 64" "sum_list probs = 1" "argmax probs = Inr a"
       "is_legal sample_gm sample_init 1 a"
       "\<forall>w. getActionProb w = mcts_getActionProb \<longrightarrow>
          snd (ai_player w sample_mcts sample_init) = Returns (a, sample_mcts)"
    by auto
  from d(5) f(1) have "snd (ai_player engine_world sample_mcts sample_init) =
      Returns (a, sample_mcts)" by blast
  with r have "a = 0" "m' = sample_mcts" by simp_all
  with f(2) on n g d r show ?thesis by auto
qed

end
